theory Spec2Isabelle
  imports Complex_Main "HOL-Library.Code_Target_Nat"
begin

section \<open>Number model\<close>

text \<open>
  The TypeScript sources compute with IEEE doubles.  For the single optic, the prism and
  the diffraction pattern the embedding idealises a finite double as a real number (no
  rounding, no overflow) and keeps the one non-finite value that code produces on
  purpose, \<^verbatim>\<open>Infinity\<close>, as a constructor of its own.  The theorems on these parts name
  the conditions that keep every divisor away from zero, and the guard of the single
  optic is compared with 0.1 only at integer differences, where a double subtraction is
  exact.  The two-lens system is different: its second guard sits within rounding
  distance of 0.1 at many slider states and its magnification can be \<^verbatim>\<open>NaN\<close>, so it
  is modelled in binary64 arithmetic (section on double precision below).
\<close>

datatype number = Num real | Infinity

text \<open>
  \<^verbatim>\<open>x > c\<close> and \<^verbatim>\<open>x < c\<close> for a possibly infinite \<open>x\<close> and a finite \<open>c\<close>.
  The test \<^verbatim>\<open>isFinite(x)\<close> is the case distinction on the two constructors.
\<close>

fun num_gt :: "number \<Rightarrow> real \<Rightarrow> bool" where
  "num_gt (Num x) c = (x > c)"
| "num_gt Infinity c = True"

fun num_lt :: "number \<Rightarrow> real \<Rightarrow> bool" where
  "num_lt (Num x) c = (x < c)"
| "num_lt Infinity c = False"

section \<open>Geometric optics: \<^verbatim>\<open>RayOpticsSim\<close>\<close>

datatype opticType = Lens | Mirror

datatype subType = Converging | Diverging | Plane

text \<open>
  The object returned by \<^verbatim>\<open>singleOpticResult\<close>; its fields are
  \<^verbatim>\<open>q, m, f, type, orientation, description\<close> in the source.
\<close>

record singleOptic =
  img_q :: number
  img_m :: number
  img_f :: number
  img_type :: string
  img_orientation :: string
  img_description :: string

text \<open>The signed focal length of a non-plane optic, \<^verbatim>\<open>(subType === 'converging' ? 1 : -1) * focalLengthMag\<close>.\<close>

definition signedFocal :: "subType \<Rightarrow> real \<Rightarrow> real" where
  "signedFocal st focalLengthMag = (if st = Converging then 1 else -1) * focalLengthMag"

definition singleOpticResult :: "real \<Rightarrow> real \<Rightarrow> opticType \<Rightarrow> subType \<Rightarrow> singleOptic" where
  "singleOpticResult objDist focalLengthMag ot st =
     (if st = Plane then
        \<lparr> img_q = Num (- objDist), img_m = Num 1, img_f = Infinity,
          img_type = ''Virtual'', img_orientation = ''Upright'',
          img_description = ''Virtual image behind mirror'' \<rparr>
      else
        let f = signedFocal st focalLengthMag;
            q = (if \<bar>objDist - f\<bar> > 0.1 then Num ((objDist * f) / (objDist - f)) else Infinity);
            m = (case q of Num qv \<Rightarrow> Num (- qv / objDist) | Infinity \<Rightarrow> Infinity);
            isReal = ((ot = Lens \<and> num_gt q 0) \<or> (ot = Mirror \<and> num_gt q 0));
            ty = (if isReal then ''Real'' else ''Virtual'');
            orientation = (if num_lt m 0 then ''Inverted'' else ''Upright'');
            description = (if isReal then ''Projectable on screen'' else ''Visible looking into optic'')
        in \<lparr> img_q = q, img_m = m, img_f = Num f, img_type = ty,
             img_orientation = orientation, img_description = description \<rparr>)"

subsection \<open>Double precision for the two-lens system\<close>

text \<open>
  A JavaScript number: a finite double, one of the two infinities, or \<^verbatim>\<open>NaN\<close>.  A
  finite double is given by its value; the sign of zero is not kept.  That loses nothing
  in \<^verbatim>\<open>twoLensResult\<close>: a zero reaches a divisor there only as a slider value or as
  the difference of two equal numbers, which are both \<open>+0\<close>, and the only quotient by
  such a zero that the code can form with a non-zero dividend is \<open>-f2/f1\<close>.
\<close>

datatype double = Finite real | PlusInf | MinusInf | NaN

text \<open>The nearest integer, a tie going to the even one.\<close>

definition roundHalfEven :: "real \<Rightarrow> int" where
  "roundHalfEven t =
     (let n = \<lfloor>t\<rfloor>; r = t - of_int n
      in if r < 1 / 2 then n else if r > 1 / 2 then n + 1 else if even n then n else n + 1)"

text \<open>
  The binade of \<open>a > 0\<close>, that is \<open>e\<close> with \<open>2\<^sup>e \<le> a < 2\<^sup>e\<^sup>+\<^sup>1\<close>, found by halving or
  doubling.  The number of steps is bounded; 1100 of them reach every exponent of the
  format, from -1074 to 1023.
\<close>

primrec binade :: "nat \<Rightarrow> real \<Rightarrow> int" where
  "binade 0 a = 0"
| "binade (Suc k) a =
     (if a \<ge> 2 then binade k (a / 2) + 1 else if a < 1 then binade k (a * 2) - 1 else 0)"

text \<open>\<open>2\<^sup>e\<close> for an integer \<open>e\<close>.\<close>

definition pow2 :: "int \<Rightarrow> real" where
  "pow2 e = (if e \<ge> 0 then 2 ^ nat e else 1 / 2 ^ nat (- e))"

text \<open>
  Rounding a real to binary64, to nearest with ties to even: 53 significant bits, the
  spacing \<open>2\<^sup>-\<^sup>1\<^sup>0\<^sup>7\<^sup>4\<close> of the subnormal range at the bottom, and overflow to an
  infinity once the rounded value leaves the exponent range.
\<close>

definition binary64 :: "real \<Rightarrow> double" where
  "binary64 x =
     (if x = 0 then Finite 0
      else
        let a = \<bar>x\<bar>;
            e = binade 1100 a;
            u = pow2 (max (e - 52) (- 1074));
            n = roundHalfEven (a / u)
        in if e > 1023 \<or> (e = 1023 \<and> n \<ge> 2 ^ 53) then (if x > 0 then PlusInf else MinusInf)
           else Finite (if x < 0 then - (of_int n * u) else of_int n * u))"

text \<open>
  The operations of the language that \<^verbatim>\<open>twoLensResult\<close> uses: \<^verbatim>\<open>isFinite\<close>, unary
  minus, \<^verbatim>\<open>Math.abs\<close>, \<^verbatim>\<open>-\<close>, \<^verbatim>\<open>*\<close>, \<^verbatim>\<open>/\<close>, \<^verbatim>\<open><\<close> and \<^verbatim>\<open>>\<close>.  The result of an
  arithmetic operation on finite operands is the exact result rounded once; the other
  cases are those of IEEE 754.  Every comparison with \<^verbatim>\<open>NaN\<close> is false.
\<close>

fun isFinite :: "double \<Rightarrow> bool" where
  "isFinite (Finite _) = True"
| "isFinite _ = False"

fun positive :: "double \<Rightarrow> bool" where
  "positive (Finite x) = (x > 0)"
| "positive PlusInf = True"
| "positive _ = False"

fun js_neg :: "double \<Rightarrow> double" where
  "js_neg (Finite x) = Finite (- x)"
| "js_neg PlusInf = MinusInf"
| "js_neg MinusInf = PlusInf"
| "js_neg NaN = NaN"

fun js_abs :: "double \<Rightarrow> double" where
  "js_abs (Finite x) = Finite \<bar>x\<bar>"
| "js_abs PlusInf = PlusInf"
| "js_abs MinusInf = PlusInf"
| "js_abs NaN = NaN"

fun js_sub :: "double \<Rightarrow> double \<Rightarrow> double" where
  "js_sub (Finite x) (Finite y) = binary64 (x - y)"
| "js_sub NaN _ = NaN"
| "js_sub _ NaN = NaN"
| "js_sub PlusInf PlusInf = NaN"
| "js_sub MinusInf MinusInf = NaN"
| "js_sub PlusInf _ = PlusInf"
| "js_sub MinusInf _ = MinusInf"
| "js_sub (Finite x) PlusInf = MinusInf"
| "js_sub (Finite x) MinusInf = PlusInf"

fun js_mul :: "double \<Rightarrow> double \<Rightarrow> double" where
  "js_mul (Finite x) (Finite y) = binary64 (x * y)"
| "js_mul NaN _ = NaN"
| "js_mul _ NaN = NaN"
| "js_mul a b =
     (if a = Finite 0 \<or> b = Finite 0 then NaN
      else if positive a = positive b then PlusInf else MinusInf)"

fun js_div :: "double \<Rightarrow> double \<Rightarrow> double" where
  "js_div (Finite x) (Finite y) =
     (if y = 0 then (if x = 0 then NaN else if x > 0 then PlusInf else MinusInf)
      else binary64 (x / y))"
| "js_div NaN _ = NaN"
| "js_div _ NaN = NaN"
| "js_div (Finite x) _ = Finite 0"
| "js_div a (Finite y) = (if positive a = (y \<ge> 0) then PlusInf else MinusInf)"
| "js_div _ _ = NaN"

fun js_lt :: "double \<Rightarrow> double \<Rightarrow> bool" where
  "js_lt (Finite x) (Finite y) = (x < y)"
| "js_lt NaN _ = False"
| "js_lt _ NaN = False"
| "js_lt PlusInf _ = False"
| "js_lt _ MinusInf = False"
| "js_lt _ _ = True"

definition js_gt :: "double \<Rightarrow> double \<Rightarrow> bool" where
  "js_gt a b = js_lt b a"

text \<open>The object returned by \<^verbatim>\<open>twoLensResult\<close>: \<^verbatim>\<open>q1, p2, q2, M_total\<close>.\<close>

record twoLens =
  tl_q1 :: double
  tl_p2 :: double
  tl_q2 :: double
  tl_M_total :: double

text \<open>
  The four state variables are numbers; the literal \<^verbatim>\<open>0.1\<close> is the double nearest to
  one tenth.
\<close>

definition twoLensResult :: "double \<Rightarrow> double \<Rightarrow> double \<Rightarrow> double \<Rightarrow> twoLens" where
  "twoLensResult objDist focalLengthMag lens2F lensSep =
     (let f1 = focalLengthMag;
          p1 = objDist;
          q1 = (if js_gt (js_abs (js_sub p1 f1)) (binary64 0.1)
                then js_div (js_mul p1 f1) (js_sub p1 f1) else PlusInf);
          f2 = lens2F
      in if \<not> isFinite q1 then
           \<lparr> tl_q1 = q1, tl_p2 = PlusInf, tl_q2 = f2, tl_M_total = js_div (js_neg f2) f1 \<rparr>
         else
           let p2 = js_sub lensSep q1 in
           if js_lt (js_abs (js_sub p2 f2)) (binary64 0.1) then
             \<lparr> tl_q1 = q1, tl_p2 = p2, tl_q2 = PlusInf, tl_M_total = PlusInf \<rparr>
           else
             let q2 = js_div (js_mul p2 f2) (js_sub p2 f2);
                 m1 = js_div (js_neg q1) p1;
                 m2 = js_div (js_neg q2) p2
             in \<lparr> tl_q1 = q1, tl_p2 = p2, tl_q2 = q2, tl_M_total = js_mul m1 m2 \<rparr>)"

section \<open>Prism refraction: \<^verbatim>\<open>PrismSim\<close>\<close>

text \<open>
  The memoised \<^verbatim>\<open>result\<close> is one of two object shapes: the early return
  \<^verbatim>\<open>{ isTIR: true, stage: 'entry' }\<close>, which carries no angle at all, and the full
  trace.  \<^verbatim>\<open>criticalAngle\<close> is a number or \<^verbatim>\<open>null\<close>.
\<close>

record prismTrace =
  theta1Rad :: real
  theta2Rad :: real
  theta3Rad :: real
  theta4Rad :: real
  deviationDeg :: real
  isTIR :: bool
  stage :: string
  criticalAngle :: "real option"

datatype prismResult = EntryTIR | Traced prismTrace

fun result_isTIR :: "prismResult \<Rightarrow> bool" where
  "result_isTIR EntryTIR = True"
| "result_isTIR (Traced t) = isTIR t"

fun result_stage :: "prismResult \<Rightarrow> string" where
  "result_stage EntryTIR = ''entry''"
| "result_stage (Traced t) = stage t"

definition prism_result :: "real \<Rightarrow> real \<Rightarrow> real \<Rightarrow> real \<Rightarrow> prismResult" where
  "prism_result nPrism nEnv angleA incidentAngle =
     (let theta1 = (incidentAngle * pi) / 180;
          sinTheta2 = (nEnv / nPrism) * sin theta1
      in if \<bar>sinTheta2\<bar> > 1 then EntryTIR
         else
           let theta2 = arcsin sinTheta2;
               angleARad = (angleA * pi) / 180;
               theta3 = angleARad - theta2;
               sinTheta4 = (nPrism / nEnv) * sin theta3;
               tir = (\<bar>sinTheta4\<bar> > 1);
               theta4 = (if tir then 0 else arcsin sinTheta4);
               deviationRad = theta1 + theta4 - angleARad;
               critical = (if nPrism > nEnv then Some (arcsin (nEnv / nPrism) * 180 / pi) else None)
           in Traced \<lparr> theta1Rad = theta1, theta2Rad = theta2, theta3Rad = theta3,
                       theta4Rad = theta4, deviationDeg = (deviationRad * 180) / pi,
                       isTIR = tir, stage = (if tir then ''exit'' else ''complete''),
                       criticalAngle = critical \<rparr>)"

section \<open>Diffraction and interference: \<^verbatim>\<open>InterferenceSim\<close>\<close>

datatype slitMode = Single | Double

text \<open>The body of the drawing loop, from the screen position \<^verbatim>\<open>yPos\<close> to \<^verbatim>\<open>intensity\<close>.\<close>

definition diffraction :: "real \<Rightarrow> real" where
  "diffraction beta = (if beta = 0 then 1 else (sin beta / beta) ^ 2)"

definition interference :: "slitMode \<Rightarrow> real \<Rightarrow> real" where
  "interference md alpha = (if md = Double then (cos alpha) ^ 2 else 1)"

definition intensity :: "slitMode \<Rightarrow> real \<Rightarrow> real \<Rightarrow> real \<Rightarrow> real \<Rightarrow> real \<Rightarrow> real" where
  "intensity md lambda a d L yPos =
     (let sinTheta = yPos / L;
          beta = (pi * a * sinTheta) / lambda;
          alpha = (pi * d * sinTheta) / lambda
      in diffraction beta * interference md alpha)"

text \<open>
  The loop reaches \<^verbatim>\<open>intensity\<close> from the slider values (nanometres, micrometres) and
  the pixel column \<open>x\<close> of a canvas \<open>w\<close> pixels wide showing 0.15 m of screen.
\<close>

definition pixelIntensity :: "slitMode \<Rightarrow> real \<Rightarrow> real \<Rightarrow> real \<Rightarrow> real \<Rightarrow> real \<Rightarrow> real \<Rightarrow> real" where
  "pixelIntensity md wavelength separation width screenDist w x =
     (let lambda = wavelength * (1 / 10 ^ 9);
          d = separation * (1 / 10 ^ 6);
          a = width * (1 / 10 ^ 6);
          L = screenDist;
          metersPerPixel = 0.15 / w;
          yPos = (x - w / 2) * metersPerPixel
      in intensity md lambda a d L yPos)"


section \<open>Equation normaliser: \<^verbatim>\<open>cleanLatex\<close>\<close>

text \<open>
  A JavaScript string is a sequence of UTF-16 code units, and the regular expressions of
  \<^verbatim>\<open>cleanLatex\<close> carry no \<^verbatim>\<open>u\<close> flag, so they work on code units too.  A string
  is therefore a list of code units, written as numbers; every glyph of the tables lies
  in the Basic Multilingual Plane and is one unit.  \<open>ascii\<close> reads an ASCII literal.
\<close>

type_synonym jsstring = "nat list"

definition ascii :: "string \<Rightarrow> jsstring" where
  "ascii = map of_char"

text \<open>Code units that the patterns name: backslash, braces, brackets, parentheses and the like.\<close>

definition backslash :: nat where "backslash = 92"
definition lbrace :: nat where "lbrace = 123"
definition rbrace :: nat where "rbrace = 125"
definition lbracket :: nat where "lbracket = 91"
definition rbracket :: nat where "rbracket = 93"
definition lparen :: nat where "lparen = 40"
definition rparen :: nat where "rparen = 41"
definition underscore :: nat where "underscore = 95"
definition caret :: nat where "caret = 94"
definition slash :: nat where "slash = 47"
definition space :: nat where "space = 32"

subsection \<open>Character classes\<close>

text \<open>\<^verbatim>\<open>\s\<close>, which is also what \<^verbatim>\<open>trim()\<close> strips: white space and line terminators.\<close>

definition isSpace :: "nat \<Rightarrow> bool" where
  "isSpace c \<longleftrightarrow>
     (9 \<le> c \<and> c \<le> 13) \<or> c = 32 \<or> c = 0xA0 \<or> c = 0x1680 \<or> (0x2000 \<le> c \<and> c \<le> 0x200A) \<or>
     c = 0x2028 \<or> c = 0x2029 \<or> c = 0x202F \<or> c = 0x205F \<or> c = 0x3000 \<or> c = 0xFEFF"

text \<open>\<^verbatim>\<open>[a-zA-Z0-9]\<close>\<close>

definition isAlnum :: "nat \<Rightarrow> bool" where
  "isAlnum c \<longleftrightarrow> (97 \<le> c \<and> c \<le> 122) \<or> (65 \<le> c \<and> c \<le> 90) \<or> (48 \<le> c \<and> c \<le> 57)"

text \<open>\<^verbatim>\<open>[\d\w]\<close>\<close>

definition isWord :: "nat \<Rightarrow> bool" where
  "isWord c \<longleftrightarrow> isAlnum c \<or> c = 95"

text \<open>\<^verbatim>\<open>[a-zA-Z0-9\u0370-\u03FF]\<close>\<close>

definition isToken :: "nat \<Rightarrow> bool" where
  "isToken c \<longleftrightarrow> isAlnum c \<or> (0x370 \<le> c \<and> c \<le> 0x3FF)"

text \<open>\<^verbatim>\<open>[^{}]\<close>\<close>

definition notBrace :: "nat \<Rightarrow> bool" where
  "notBrace c \<longleftrightarrow> c \<noteq> 123 \<and> c \<noteq> 125"

subsection \<open>Global replacement\<close>

text \<open>
  \<^verbatim>\<open>s.replace(/re/g, r)\<close> scans from the left: where the expression matches, the
  replacement is emitted and the scan resumes after the match; elsewhere one unit is
  copied.  None of the expressions here looks behind or can match the empty string, so a
  matcher sees only the rest of the string and returns the replacement with what follows
  the match.  The length test keeps the definition total for an arbitrary matcher; every
  matcher below consumes at least one unit (lemma \<open>matchers_consume\<close>).
\<close>

type_synonym matcher = "jsstring \<Rightarrow> (jsstring \<times> jsstring) option"

fun replaceAll :: "matcher \<Rightarrow> jsstring \<Rightarrow> jsstring" where
  "replaceAll m [] = []"
| "replaceAll m (c # cs) =
     (case m (c # cs) of
        None \<Rightarrow> c # replaceAll m cs
      | Some (rep, rest) \<Rightarrow>
          if length rest \<le> length cs then rep @ replaceAll m rest else c # replaceAll m cs)"

text \<open>A literal at the head of the string.\<close>

definition stripPrefix :: "jsstring \<Rightarrow> jsstring \<Rightarrow> jsstring option" where
  "stripPrefix pat s = (if take (length pat) s = pat then Some (drop (length pat) s) else None)"

text \<open>One given unit at the head of the string.\<close>

fun expect :: "nat \<Rightarrow> jsstring \<Rightarrow> jsstring option" where
  "expect c [] = None"
| "expect c (x # r) = (if x = c then Some r else None)"

text \<open>
  \<^verbatim>\<open>\{([^{}]+)\}\<close>: the class excludes the closing brace, so the greedy run is the
  only candidate.
\<close>

definition braced :: "jsstring \<Rightarrow> (jsstring \<times> jsstring) option" where
  "braced s =
     (case expect lbrace s of
        None \<Rightarrow> None
      | Some r \<Rightarrow>
          let inner = takeWhile notBrace r in
          if inner = [] then None
          else (case expect rbrace (dropWhile notBrace r) of
                  None \<Rightarrow> None
                | Some rest \<Rightarrow> Some (inner, rest)))"

text \<open>A command name, \<^verbatim>\<open>\s*\<close>, and what is left for the argument patterns.\<close>

definition command :: "string \<Rightarrow> jsstring \<Rightarrow> jsstring option" where
  "command name s =
     (case stripPrefix (backslash # ascii name) s of
        None \<Rightarrow> None
      | Some r \<Rightarrow> Some (dropWhile isSpace r))"

subsection \<open>1. Initial cleanup\<close>

text \<open>\<^verbatim>\<open>/\\[,;!:]/g\<close>\<close>

fun m_spacing :: matcher where
  "m_spacing (b # c # r) =
     (if b = backslash \<and> (c = 44 \<or> c = 59 \<or> c = 33 \<or> c = 58) then Some ([space], r) else None)"
| "m_spacing _ = None"

text \<open>\<^verbatim>\<open>/\\ /g\<close>\<close>

fun m_escapedSpace :: matcher where
  "m_escapedSpace (b # c # r) = (if b = backslash \<and> c = space then Some ([space], r) else None)"
| "m_escapedSpace _ = None"

text \<open>\<^verbatim>\<open>/\s+/g\<close>\<close>

fun m_whitespace :: matcher where
  "m_whitespace [] = None"
| "m_whitespace (c # r) = (if isSpace c then Some ([space], dropWhile isSpace r) else None)"

text \<open>\<^verbatim>\<open>/\\left/g\<close> and its three siblings, each replaced by the empty string.\<close>

definition m_remove :: "string \<Rightarrow> matcher" where
  "m_remove name s =
     (case stripPrefix (backslash # ascii name) s of None \<Rightarrow> None | Some r \<Rightarrow> Some ([], r))"

definition initialCleanup :: "jsstring \<Rightarrow> jsstring" where
  "initialCleanup s0 =
     (let s1 = replaceAll m_spacing s0;
          s2 = replaceAll m_escapedSpace s1;
          s3 = replaceAll m_whitespace s2;
          s4 = replaceAll (m_remove ''left'') s3;
          s5 = replaceAll (m_remove ''right'') s4;
          s6 = replaceAll (m_remove ''mathrm'') s5
      in replaceAll (m_remove ''mathbf'') s6)"

subsection \<open>2. Global symbol map\<close>

text \<open>The table \<^verbatim>\<open>map\<close>, in the order of the object literal.\<close>

definition symbolMap :: "(jsstring \<times> jsstring) list" where
  "symbolMap =
     [(backslash # ascii ''lambda'', [0x3BB]), (backslash # ascii ''theta'', [0x3B8]),
      (backslash # ascii ''delta'', [0x3B4]), (backslash # ascii ''Delta'', [0x394]),
      (backslash # ascii ''mu'', [0x3BC]), (backslash # ascii ''alpha'', [0x3B1]),
      (backslash # ascii ''beta'', [0x3B2]), (backslash # ascii ''gamma'', [0x3B3]),
      (backslash # ascii ''pi'', [0x3C0]), (backslash # ascii ''rho'', [0x3C1]),
      (backslash # ascii ''sigma'', [0x3C3]), (backslash # ascii ''phi'', [0x3C6]),
      (backslash # ascii ''psi'', [0x3C8]),
      (backslash # ascii ''omega'', [0x3C9]), (backslash # ascii ''Omega'', [0x3A9]),
      (backslash # ascii ''epsilon'', [0x3B5]), (backslash # ascii ''tau'', [0x3C4]),
      (backslash # ascii ''sin'', ascii ''sin''), (backslash # ascii ''cos'', ascii ''cos''),
      (backslash # ascii ''tan'', ascii ''tan''),
      (backslash # ascii ''arcsin'', ascii ''arcsin''),
      (backslash # ascii ''arccos'', ascii ''arccos''),
      (backslash # ascii ''arctan'', ascii ''arctan''),
      (backslash # ascii ''ln'', ascii ''ln''), (backslash # ascii ''log'', ascii ''log''),
      (backslash # ascii ''approx'', [0x2248]), (backslash # ascii ''cdot'', [0xB7]),
      (backslash # ascii ''times'', [0xD7]),
      (backslash # ascii ''le'', [0x2264]), (backslash # ascii ''ge'', [0x2265]),
      (backslash # ascii ''pm'', [0xB1]), (backslash # ascii ''mp'', [0x2213]),
      (backslash # ascii ''infty'', [0x221E]), (backslash # ascii ''to'', [0x2192]),
      (backslash # ascii ''rightarrow'', [0x2192]), (backslash # ascii ''leftarrow'', [0x2190]),
      (backslash # ascii ''degree'', [0xB0]), (backslash # ascii ''circ'', [0xB0]),
      (backslash # ascii ''int'', [0x222B]), (backslash # ascii ''oint'', [0x222E]),
      (backslash # ascii ''sum'', [0x3A3]), (backslash # ascii ''partial'', [0x2202]),
      (backslash # ascii ''nabla'', [0x2207])]"

text \<open>
  \<^verbatim>\<open>Object.keys(map).sort((a, b) => b.length - a.length)\<close>: longest first, keys of one
  length in table order (the sort is stable).
\<close>

definition keys :: "jsstring list" where
  "keys = sort_key (\<lambda>k. - int (length k)) (map fst symbolMap)"

text \<open>\<^verbatim>\<open>s.split(sep)\<close> for a non-empty separator, and \<^verbatim>\<open>parts.join(glue)\<close>.\<close>

fun splitFrom :: "jsstring \<Rightarrow> jsstring \<Rightarrow> jsstring \<Rightarrow> jsstring list" where
  "splitFrom sep cur [] = [cur]"
| "splitFrom sep cur (c # cs) =
     (if sep \<noteq> [] \<and> take (length sep) (c # cs) = sep
      then cur # splitFrom sep [] (drop (length sep - 1) cs)
      else splitFrom sep (cur @ [c]) cs)"

definition split :: "jsstring \<Rightarrow> jsstring \<Rightarrow> jsstring list" where
  "split sep s = splitFrom sep [] s"

fun join :: "jsstring \<Rightarrow> jsstring list \<Rightarrow> jsstring" where
  "join glue [] = []"
| "join glue [p] = p"
| "join glue (p # q # ps) = p @ glue @ join glue (q # ps)"

text \<open>\<^verbatim>\<open>map[key]\<close>; every key of the loop is in the table.\<close>

definition symbolOf :: "jsstring \<Rightarrow> jsstring" where
  "symbolOf key = (case map_of symbolMap key of Some glyph \<Rightarrow> glyph | None \<Rightarrow> [])"

definition applySymbolMap :: "jsstring \<Rightarrow> jsstring" where
  "applySymbolMap s = foldl (\<lambda>s key. join (symbolOf key) (split key s)) s keys"

subsection \<open>3. Subscript and superscript maps\<close>

definition subMap :: "(nat \<times> jsstring) list" where
  "subMap =
     [(48, [0x2080]), (49, [0x2081]), (50, [0x2082]), (51, [0x2083]), (52, [0x2084]),
      (53, [0x2085]), (54, [0x2086]), (55, [0x2087]), (56, [0x2088]), (57, [0x2089]),
      (43, [0x208A]), (45, [0x208B]), (61, [0x208C]), (40, [0x208D]), (41, [0x208E]),
      (97, [0x2090]), (101, [0x2091]), (104, [0x2095]), (105, [0x1D62]), (107, [0x2096]),
      (108, [0x2097]), (109, [0x2098]),
      (110, [0x2099]), (111, [0x2092]), (112, [0x209A]), (114, [0x1D63]), (115, [0x209B]),
      (116, [0x209C]), (117, [0x1D64]),
      (118, [0x1D65]), (120, [0x2093])]"

definition supMap :: "(nat \<times> jsstring) list" where
  "supMap =
     [(48, [0x2070]), (49, [0xB9]), (50, [0xB2]), (51, [0xB3]), (52, [0x2074]),
      (53, [0x2075]), (54, [0x2076]), (55, [0x2077]), (56, [0x2078]), (57, [0x2079]),
      (43, [0x207A]), (45, [0x207B]), (61, [0x207C]), (40, [0x207D]), (41, [0x207E]),
      (110, [0x207F]), (105, [0x2071]), (120, [0x2E3]), (121, [0x2B8])]"

text \<open>\<^verbatim>\<open>str.split('').map(c => subMap[c] || c).join('')\<close>\<close>

definition toSub :: "jsstring \<Rightarrow> jsstring" where
  "toSub str = concat (map (\<lambda>c. case map_of subMap c of Some g \<Rightarrow> g | None \<Rightarrow> [c]) str)"

definition toSup :: "jsstring \<Rightarrow> jsstring" where
  "toSup str = concat (map (\<lambda>c. case map_of supMap c of Some g \<Rightarrow> g | None \<Rightarrow> [c]) str)"

subsection \<open>4. Iterative structural resolution\<close>

text \<open>\<^verbatim>\<open>/\\text\s*\{([^{}]+)\}/g\<close> with \<^verbatim>\<open>'$1'\<close>\<close>

definition m_text :: matcher where
  "m_text s =
     (case command ''text'' s of
        None \<Rightarrow> None
      | Some r \<Rightarrow> (case braced r of None \<Rightarrow> None | Some (x, rest) \<Rightarrow> Some (x, rest)))"

text \<open>\<^verbatim>\<open>/\\sqrt\s*\{([^{}]+)\}/g\<close> with the radical sign U+221A and parentheses\<close>

definition m_sqrt :: matcher where
  "m_sqrt s =
     (case command ''sqrt'' s of
        None \<Rightarrow> None
      | Some r \<Rightarrow>
          (case braced r of
             None \<Rightarrow> None
           | Some (x, rest) \<Rightarrow> Some ([0x221A, lparen] @ x @ [rparen], rest)))"

text \<open>
  \<^verbatim>\<open>/\\sqrt\s*\[([^{}]+)\]\s*\{([^{}]+)\}/g\<close> with \<^verbatim>\<open>'root($1, $2)'\<close>.  The first
  group may hold closing brackets.  It is greedy, so the engine tries the last bracket of
  the brace-free run first; after an earlier one, \<^verbatim>\<open>\s*\{\<close> would meet that last
  bracket and fail.  So the index splits the run at its last bracket, and what follows
  it in the run must be white space.
\<close>

definition m_root :: matcher where
  "m_root s =
     (case command ''sqrt'' s of
        None \<Rightarrow> None
      | Some r \<Rightarrow>
          (case expect lbracket r of
             None \<Rightarrow> None
           | Some r1 \<Rightarrow>
               let run = takeWhile notBrace r1;
                   after = dropWhile notBrace r1;
                   tailWs = takeWhile (\<lambda>c. c \<noteq> rbracket) (rev run);
                   idx = rev (drop (length tailWs + 1) (rev run))
               in if rbracket \<notin> set run \<or> idx = [] \<or> \<not> list_all isSpace tailWs then None
                  else (case braced after of
                          None \<Rightarrow> None
                        | Some (x, rest) \<Rightarrow>
                            Some (ascii ''root('' @ idx @ ascii '', '' @ x @ [rparen], rest))))"

text \<open>\<^verbatim>\<open>/\\frac\s*\{([^{}]+)\}\s*\{([^{}]+)\}/g\<close> with \<^verbatim>\<open>'($1)/($2)'\<close>\<close>

definition m_frac :: matcher where
  "m_frac s =
     (case command ''frac'' s of
        None \<Rightarrow> None
      | Some r \<Rightarrow>
          (case braced r of
             None \<Rightarrow> None
           | Some (a, r1) \<Rightarrow>
               (case braced (dropWhile isSpace r1) of
                  None \<Rightarrow> None
                | Some (b, rest) \<Rightarrow>
                    Some ([lparen] @ a @ [rparen, slash, lparen] @ b @ [rparen], rest))))"

text \<open>\<^verbatim>\<open>/_\{([^{}]+)\}/g\<close> with the callback on \<^verbatim>\<open>inner\<close>\<close>

definition m_sub :: matcher where
  "m_sub s =
     (case expect underscore s of
        None \<Rightarrow> None
      | Some r \<Rightarrow>
          (case braced r of
             None \<Rightarrow> None
           | Some (inner, rest) \<Rightarrow>
               let allMapped = list_all (\<lambda>c. map_of subMap c \<noteq> None) inner
               in Some (if allMapped then toSub inner else underscore # inner, rest)))"

text \<open>\<^verbatim>\<open>/\^\{([^{}]+)\}/g\<close>; the degree sign is U+00B0\<close>

definition m_sup :: matcher where
  "m_sup s =
     (case expect caret s of
        None \<Rightarrow> None
      | Some r \<Rightarrow>
          (case braced r of
             None \<Rightarrow> None
           | Some (inner, rest) \<Rightarrow>
               if inner = [0xB0] then Some ([0xB0], rest)
               else
                 let allMapped = list_all (\<lambda>c. map_of supMap c \<noteq> None) inner
                 in Some (if allMapped then toSup inner
                          else [caret, lparen] @ inner @ [rparen], rest)))"

text \<open>The body of the \<^verbatim>\<open>do\<close> loop, without the bookkeeping.\<close>

definition structuralPass :: "jsstring \<Rightarrow> jsstring" where
  "structuralPass s0 =
     (let s1 = replaceAll m_text s0;
          s2 = replaceAll m_sqrt s1;
          s3 = replaceAll m_root s2;
          s4 = replaceAll m_frac s3;
          s5 = replaceAll m_sub s4
      in replaceAll m_sup s5)"

definition maxLoops :: nat where
  "maxLoops = 10"

text \<open>
  \<^verbatim>\<open>do { oldS = s; loops++; ... } while (s !== oldS && loops < maxLoops)\<close>, entered with
  the current string and the number of passes made so far; it returns both.
\<close>

function resolveLoop :: "jsstring \<Rightarrow> nat \<Rightarrow> jsstring \<times> nat" where
  "resolveLoop s loops =
     (let oldS = s;
          loops' = loops + 1;
          s' = structuralPass s
      in if s' \<noteq> oldS \<and> loops' < maxLoops then resolveLoop s' loops' else (s', loops'))"
  by pat_completeness auto
termination
  by (relation "measure (\<lambda>(s, loops). maxLoops - loops)") auto

declare resolveLoop.simps [simp del]

subsection \<open>5. Single-character subscripts and superscripts\<close>

text \<open>\<^verbatim>\<open>/_([a-zA-Z0-9])/g\<close> and \<^verbatim>\<open>/\^([a-zA-Z0-9])/g\<close>\<close>

fun m_subChar :: matcher where
  "m_subChar (u # c # r) =
     (if u = underscore \<and> isAlnum c
      then Some (case map_of subMap c of Some g \<Rightarrow> g | None \<Rightarrow> [underscore, c], r)
      else None)"
| "m_subChar _ = None"

fun m_supChar :: matcher where
  "m_supChar (u # c # r) =
     (if u = caret \<and> isAlnum c
      then Some (case map_of supMap c of Some g \<Rightarrow> g | None \<Rightarrow> [caret, c], r)
      else None)"
| "m_supChar _ = None"

definition singleCharScripts :: "jsstring \<Rightarrow> jsstring" where
  "singleCharScripts s = replaceAll m_supChar (replaceAll m_subChar s)"

subsection \<open>6. Final cleanup\<close>

text \<open>\<^verbatim>\<open>/[{}]/g\<close>\<close>

fun m_anyBrace :: matcher where
  "m_anyBrace [] = None"
| "m_anyBrace (c # r) = (if notBrace c then None else Some ([], r))"

definition trim :: "jsstring \<Rightarrow> jsstring" where
  "trim s = rev (dropWhile isSpace (rev (dropWhile isSpace s)))"

definition finalCleanup :: "jsstring \<Rightarrow> jsstring" where
  "finalCleanup s = trim (replaceAll m_whitespace (replaceAll m_anyBrace s))"

subsection \<open>7. Cosmetic polishing\<close>

text \<open>\<^verbatim>\<open>\(([a-zA-Z0-9\u0370-\u03FF]+)\)\<close>, one half of the fraction pattern\<close>

definition parenToken :: "jsstring \<Rightarrow> (jsstring \<times> jsstring) option" where
  "parenToken s =
     (case expect lparen s of
        None \<Rightarrow> None
      | Some r \<Rightarrow>
          let tok = takeWhile isToken r in
          if tok = [] then None
          else (case expect rparen (dropWhile isToken r) of
                  None \<Rightarrow> None
                | Some rest \<Rightarrow> Some (tok, rest)))"

text \<open>\<^verbatim>\<open>/\(([...]+)\)\/\(([...]+)\)/g\<close> with \<^verbatim>\<open>'$1/$2'\<close>\<close>

definition m_polishFrac :: matcher where
  "m_polishFrac s =
     (case parenToken s of
        None \<Rightarrow> None
      | Some (a, r1) \<Rightarrow>
          (case expect slash r1 of
             None \<Rightarrow> None
           | Some r2 \<Rightarrow>
               (case parenToken r2 of
                  None \<Rightarrow> None
                | Some (b, rest) \<Rightarrow> Some (a @ [slash] @ b, rest))))"

text \<open>\<^verbatim>\<open>/\^\(([\d\w])\)/g\<close> with \<^verbatim>\<open>'^$1'\<close>\<close>

fun m_polishSup :: matcher where
  "m_polishSup (u # l # c # r # rest) =
     (if u = caret \<and> l = lparen \<and> isWord c \<and> r = rparen then Some ([caret, c], rest) else None)"
| "m_polishSup _ = None"

definition cosmeticPolish :: "jsstring \<Rightarrow> jsstring" where
  "cosmeticPolish s = replaceAll m_polishSup (replaceAll m_polishFrac s)"

subsection \<open>The whole function\<close>

definition cleanLatex :: "jsstring \<Rightarrow> jsstring" where
  "cleanLatex latex =
     (let s = initialCleanup latex;
          s = applySymbolMap s;
          s = fst (resolveLoop s 0);
          s = singleCharScripts s;
          s = finalCleanup s
      in cosmeticPolish s)"


subsection \<open>Predicates used to state and prove the properties\<close>

text \<open>
  A string is single-spaced when its only white space is the ASCII space and no two of
  them are adjacent; it has no edge space when it neither starts nor ends with white
  space.  The final cleanup produces strings with both properties.
\<close>

fun singleSpaced :: "jsstring \<Rightarrow> bool" where
  "singleSpaced [] = True"
| "singleSpaced (c # r) =
     ((isSpace c \<longrightarrow> c = space \<and> (case r of [] \<Rightarrow> True | d # _ \<Rightarrow> \<not> isSpace d)) \<and>
      singleSpaced r)"

definition noEdgeSpace :: "jsstring \<Rightarrow> bool" where
  "noEdgeSpace s \<longleftrightarrow> s = [] \<or> (\<not> isSpace (hd s) \<and> \<not> isSpace (last s))"

text \<open>
  An untouched command is a backslash followed by ASCII letters only, such that neither a
  key of the symbol table nor one of the four names removed by the initial cleanup is a
  prefix of it.
\<close>

definition isLetter :: "nat \<Rightarrow> bool" where
  "isLetter c \<longleftrightarrow> (97 \<le> c \<and> c \<le> 122) \<or> (65 \<le> c \<and> c \<le> 90)"

definition removedNames :: "jsstring list" where
  "removedNames = map (\<lambda>name. backslash # ascii name) [''left'', ''right'', ''mathrm'', ''mathbf'']"

fun untouchedCommand :: "jsstring \<Rightarrow> bool" where
  "untouchedCommand [] = False"
| "untouchedCommand (c # w) =
     (c = backslash \<and> list_all isLetter w \<and>
      list_all (\<lambda>k. take (length k) (c # w) \<noteq> k) (keys @ removedNames))"

section \<open>Properties of the geometric-optics solver\<close>

text \<open>
  C7.  The plane mirror is a fixed special case: for every object distance \<open>p\<close> (and
  whatever the focal-length slider and the optic kind hold) the result is \<open>q = -p\<close>,
  \<open>m = 1\<close>, nature Virtual, orientation Upright, with no use of the thin-lens formula.
\<close>

theorem plane_mirror_fixed:
  "singleOpticResult p fm ot Plane =
     \<lparr> img_q = Num (- p), img_m = Num 1, img_f = Infinity,
       img_type = ''Virtual'', img_orientation = ''Upright'',
       img_description = ''Virtual image behind mirror'' \<rparr>"
  by (simp add: singleOpticResult_def)



text \<open>
  C6, as stated, lets the nature alone fix the description, the plane mirror included.
  The plane mirror is Virtual and carries a description of its own, different from the
  one a Virtual image of a diverging mirror gets.
\<close>

theorem description_plane_counterexample:
  "img_type (singleOpticResult 200 100 Mirror Plane) = ''Virtual'' \<and>
   img_description (singleOpticResult 200 100 Mirror Plane) \<noteq> ''visible looking into optic'' \<and>
   img_type (singleOpticResult 200 100 Mirror Diverging) = ''Virtual'' \<and>
   img_description (singleOpticResult 200 100 Mirror Plane)
     \<noteq> img_description (singleOpticResult 200 100 Mirror Diverging)"
  by (simp add: singleOpticResult_def signedFocal_def)

text \<open>
  C6, amended.  For every optic that is not plane the nature is Real or Virtual and fixes
  the description: Real gives \<^verbatim>\<open>Projectable on screen\<close>, Virtual gives
  \<^verbatim>\<open>Visible looking into optic\<close>.  The plane mirror is Virtual and always described as
  \<^verbatim>\<open>Virtual image behind mirror\<close>.
\<close>

theorem description_from_nature:
  fixes p fm :: real and ot :: opticType and st :: subType
  shows "(st \<noteq> Plane \<longrightarrow>
           (img_type (singleOpticResult p fm ot st) = ''Real'' \<longrightarrow>
              img_description (singleOpticResult p fm ot st) = ''Projectable on screen'') \<and>
           (img_type (singleOpticResult p fm ot st) = ''Virtual'' \<longrightarrow>
              img_description (singleOpticResult p fm ot st) = ''Visible looking into optic'') \<and>
           (img_type (singleOpticResult p fm ot st) = ''Real'' \<or>
            img_type (singleOpticResult p fm ot st) = ''Virtual'')) \<and>
         (st = Plane \<longrightarrow>
            img_type (singleOpticResult p fm ot st) = ''Virtual'' \<and>
            img_description (singleOpticResult p fm ot st) = ''Virtual image behind mirror'')"
  by (simp add: singleOpticResult_def Let_def)

theorem description_from_nature_witness:
  "Converging \<noteq> Plane \<and>
   img_type (singleOpticResult 200 100 Lens Converging) = ''Real'' \<and>
   img_description (singleOpticResult 200 100 Lens Converging) = ''Projectable on screen'' \<and>
   img_type (singleOpticResult 50 100 Mirror Converging) = ''Virtual'' \<and>
   img_description (singleOpticResult 50 100 Mirror Converging) = ''Visible looking into optic'' \<and>
   img_description (singleOpticResult 50 100 Mirror Plane) = ''Virtual image behind mirror''"
  using description_from_nature [of Converging 200 100 Lens]
        description_from_nature [of Converging 50 100 Mirror]
        description_from_nature [of Plane 50 100 Mirror]
  by (simp add: singleOpticResult_def signedFocal_def)

subsection \<open>The two-lens system in double precision\<close>

lemma binade_ge1:
  "1 \<le> a \<Longrightarrow> a < 2 ^ k \<Longrightarrow> k \<le> fuel \<Longrightarrow>
   0 \<le> binade fuel a \<and> binade fuel a < int k \<and>
   2 ^ nat (binade fuel a) \<le> a \<and> a < 2 * 2 ^ nat (binade fuel a)"
proof (induction fuel arbitrary: a k)
  case 0
  then show ?case by simp
next
  case (Suc fuel)
  show ?case
  proof (cases "a \<ge> 2")
    case False
    have "k \<noteq> 0" using Suc.prems by (cases k) auto
    then show ?thesis using False Suc.prems by simp
  next
    case True
    have "k \<noteq> 0" using Suc.prems by (cases k) auto
    then obtain j where j: "k = Suc j" by (cases k) auto
    have h: "1 \<le> a / 2" "a / 2 < 2 ^ j" "j \<le> fuel"
      using True Suc.prems j by simp_all
    from Suc.IH [OF h]
    have ih: "0 \<le> binade fuel (a / 2)" "binade fuel (a / 2) < int j"
      "2 ^ nat (binade fuel (a / 2)) \<le> a / 2" "a / 2 < 2 * 2 ^ nat (binade fuel (a / 2))"
      by simp_all
    have n: "nat (binade fuel (a / 2) + 1) = Suc (nat (binade fuel (a / 2)))"
      using ih(1) by simp
    show ?thesis
      using True ih j by (simp add: n)
  qed
qed

lemma binade_small: "a < 2 \<Longrightarrow> binade fuel a \<le> 0"
proof (induction fuel arbitrary: a)
  case 0
  then show ?case by simp
next
  case (Suc fuel)
  show ?case
  proof (cases "a < 1")
    case True
    then have "binade fuel (a * 2) \<le> 0" by (intro Suc.IH) simp
    then show ?thesis using True Suc.prems by simp
  next
    case False
    then show ?thesis using Suc.prems by simp
  qed
qed

lemma roundHalfEven_int: "roundHalfEven (of_int m) = m"
  by (simp add: roundHalfEven_def)

lemma pow2_nonpos: "d \<ge> 0 \<Longrightarrow> pow2 (- d) = 1 / 2 ^ nat d"
  by (cases "d = 0") (simp_all add: pow2_def)

lemma binary64_finite: "\<bar>x\<bar> < 2 ^ 1023 \<Longrightarrow> isFinite (binary64 x)"
proof (cases "x = 0")
  case True
  then show ?thesis by (simp add: binary64_def)
next
  case False
  assume b: "\<bar>x\<bar> < 2 ^ 1023"
  have "binade 1100 \<bar>x\<bar> < 1023"
  proof (cases "\<bar>x\<bar> < 2")
    case True
    then show ?thesis using binade_small [of "\<bar>x\<bar>" 1100] by simp
  next
    case False
    then show ?thesis using binade_ge1 [of "\<bar>x\<bar>" 1023 1100] b by simp
  qed
  then show ?thesis using False by (simp add: binary64_def Let_def)
qed

lemma binary64_int:
  assumes "\<bar>k\<bar> < 2 ^ 53"
  shows "binary64 (of_int k) = Finite (of_int k)"
proof (cases "k = 0")
  case True
  then show ?thesis by (simp add: binary64_def)
next
  case False
  let ?a = "\<bar>of_int k :: real\<bar>"
  let ?e = "binade 1100 ?a"
  have a1: "1 \<le> ?a"
  proof -
    have "1 \<le> \<bar>k\<bar>" using False by simp
    then have "(of_int 1 :: real) \<le> of_int \<bar>k\<bar>" by (simp only: of_int_le_iff)
    then show ?thesis by simp
  qed
  have a2: "?a < 2 ^ 53"
  proof -
    have "of_int \<bar>k\<bar> < (of_int (2 ^ 53) :: real)" using assms by (simp only: of_int_less_iff)
    then show ?thesis by simp
  qed
  from binade_ge1 [OF a1 a2] have e: "0 \<le> ?e" "?e < 53" by simp_all
  define d where "d = 52 - ?e"
  have d: "0 \<le> d" "?e - 52 = - d" using e by (simp_all add: d_def)
  have u: "pow2 (max (?e - 52) (- 1074)) = 1 / 2 ^ nat d"
  proof -
    have "max (?e - 52) (- 1074) = - d" using e d by simp
    then show ?thesis using pow2_nonpos [OF d(1)] by simp
  qed
  have q: "?a / (1 / 2 ^ nat d) = of_int (\<bar>k\<bar> * 2 ^ nat d)" by simp
  have r: "roundHalfEven (?a / (1 / 2 ^ nat d)) = \<bar>k\<bar> * 2 ^ nat d"
    unfolding q by (rule roundHalfEven_int)
  have inv: "of_int (\<bar>k\<bar> * 2 ^ nat d) * (1 / 2 ^ nat d) = ?a" by simp
  have nov: "\<not> (?e > 1023 \<or> (?e = 1023 \<and> roundHalfEven (?a / (1 / 2 ^ nat d)) \<ge> 2 ^ 53))"
    using e by simp
  have "binary64 (of_int k) = Finite (if of_int k < (0::real) then - ?a else ?a)"
    unfolding binary64_def Let_def u using False nov by (simp only: r inv) simp
  then show ?thesis by (simp add: abs_if)
qed

lemma tenth: "binary64 0.1 = Finite (3602879701896397 / 36028797018963968)"
  by code_simp

lemma tenth': "binary64 (1 / 10) = Finite (3602879701896397 / 36028797018963968)"
  using tenth by simp

lemma binary64_zero: "binary64 0 = Finite 0"
  by (simp add: binary64_def)

lemma guard_equal: "\<not> js_gt (js_abs (js_sub p p)) (binary64 0.1)"
  by (cases p) (simp_all add: js_gt_def tenth' binary64_zero)

lemma tl_q1_eq:
  "tl_q1 (twoLensResult p1 f1 f2 sep) =
     (if js_gt (js_abs (js_sub p1 f1)) (binary64 0.1)
      then js_div (js_mul p1 f1) (js_sub p1 f1) else PlusInf)"
  by (simp add: twoLensResult_def Let_def)

lemma guard_int:
  assumes "\<bar>a - b\<bar> < 2 ^ 53"
  shows "js_gt (js_abs (js_sub (Finite (of_int a)) (Finite (of_int b)))) (binary64 0.1) \<longleftrightarrow> a \<noteq> b"
proof -
  have "js_sub (Finite (of_int a)) (Finite (of_int b)) = binary64 (of_int (a - b))" by simp
  also have "\<dots> = Finite (of_int (a - b))" by (rule binary64_int [OF assms])
  finally have s: "js_abs (js_sub (Finite (of_int a)) (Finite (of_int b))) = Finite \<bar>of_int (a - b)\<bar>"
    by simp
  show ?thesis
  proof (cases "a = b")
    case True
    then show ?thesis unfolding s by (simp add: js_gt_def tenth')
  next
    case False
    then have "1 \<le> \<bar>a - b\<bar>" by simp
    then have "(of_int 1 :: real) \<le> of_int \<bar>a - b\<bar>" by (simp only: of_int_le_iff)
    then have "(1 :: real) \<le> \<bar>of_int (a - b)\<bar>" by simp
    then show ?thesis using False unfolding s by (simp add: js_gt_def tenth')
  qed
qed

text \<open>
  On whole numbers the guard computed in doubles and the guard computed in real numbers
  agree.
\<close>

lemma guard_int_real:
  assumes "\<bar>a - b\<bar> < 2 ^ 53"
  shows "js_gt (js_abs (js_sub (Finite (of_int a)) (Finite (of_int b)))) (binary64 0.1) \<longleftrightarrow>
         \<bar>real_of_int a - real_of_int b\<bar> > 0.1"
proof (cases "a = b")
  case True
  then show ?thesis using guard_int [OF assms] by simp
next
  case False
  then have "1 \<le> \<bar>a - b\<bar>" by simp
  then have "(of_int 1 :: real) \<le> of_int \<bar>a - b\<bar>" by (simp only: of_int_le_iff)
  then have "(1 :: real) \<le> \<bar>of_int a - of_int b\<bar>" by simp
  then have "\<bar>real_of_int a - real_of_int b\<bar> > 0.1" by simp
  then show ?thesis using guard_int [OF assms] False by simp
qed

lemma q1_int:
  assumes a: "\<bar>a\<bar> < 2 ^ 26" and b: "\<bar>b\<bar> < 2 ^ 26"
  shows "(isFinite (tl_q1 (twoLensResult (Finite (of_int a)) (Finite (of_int b)) f2 sep)) \<longleftrightarrow> a \<noteq> b) \<and>
         (a \<noteq> b \<longrightarrow> tl_q1 (twoLensResult (Finite (of_int a)) (Finite (of_int b)) f2 sep) =
            binary64 (of_int a * of_int b / (of_int a - of_int b)))"
proof -
  let ?p = "Finite (of_int a)" and ?f = "Finite (of_int b)"
  have d: "\<bar>a - b\<bar> < 2 ^ 53" using a b by simp
  have "\<bar>a * b\<bar> < 2 ^ 26 * 2 ^ 26"
    unfolding abs_mult using a b by (intro mult_strict_mono) simp_all
  then have m: "\<bar>a * b\<bar> < 2 ^ 53" by simp
  have q1: "tl_q1 (twoLensResult ?p ?f f2 sep) =
      (if a \<noteq> b then js_div (js_mul ?p ?f) (js_sub ?p ?f) else PlusInf)"
    unfolding tl_q1_eq by (simp only: guard_int [OF d])
  have sub: "js_sub ?p ?f = Finite (of_int (a - b))"
    using binary64_int [OF d] by simp
  have mul: "js_mul ?p ?f = Finite (of_int (a * b))"
    using binary64_int [OF m] by simp
  have quot: "js_div (js_mul ?p ?f) (js_sub ?p ?f) = binary64 (of_int a * of_int b / (of_int a - of_int b))"
    if "a \<noteq> b"
    unfolding sub mul using that by simp
  have fin: "isFinite (binary64 (of_int a * of_int b / (of_int a - of_int b)))" if "a \<noteq> b"
  proof (rule binary64_finite)
    have "1 \<le> \<bar>a - b\<bar>" using that by simp
    then have "(of_int 1 :: real) \<le> of_int \<bar>a - b\<bar>" by (simp only: of_int_le_iff)
    then have one: "(1 :: real) \<le> \<bar>of_int a - of_int b\<bar>" by simp
    have "(of_int \<bar>a * b\<bar> :: real) < of_int (2 ^ 53)" using m by (simp only: of_int_less_iff)
    then have prod: "\<bar>of_int a * of_int b :: real\<bar> < 2 ^ 53" by simp
    have "\<bar>of_int a * of_int b / (of_int a - of_int b) :: real\<bar>
            = \<bar>of_int a * of_int b\<bar> / \<bar>of_int a - of_int b\<bar>" by (simp add: abs_divide)
    also have "\<dots> \<le> \<bar>of_int a * of_int b\<bar> / 1"
      using one by (intro divide_left_mono) simp_all
    also have "\<dots> = \<bar>of_int a * of_int b\<bar>" by simp
    also have "\<dots> < 2 ^ 53" by (rule prod)
    also have "(2::real) ^ 53 < 2 ^ 1023" by (rule power_strict_increasing) simp_all
    finally show "\<bar>of_int a * of_int b / (of_int a - of_int b) :: real\<bar> < 2 ^ 1023" .
  qed
  show ?thesis using q1 quot fin by auto
qed

text \<open>
  The model at five slider states, computed by the definitions alone.  At
  (285, 35, 70, 110) the intermediate image is the double nearest to 39.9, the object
  distance for lens 2 is a double just below 70.1, and its distance from \<open>f2 = 70\<close> is
  below the double nearest to 0.1: the second guard fires.  At (200, 100, 50, 200) the
  second object distance is zero and the total magnification is \<^verbatim>\<open>NaN\<close>.
\<close>

lemma twoLensResult_slider_states:
  "twoLensResult (Finite 285) (Finite 35) (Finite 70) (Finite 110) =
     \<lparr> tl_q1 = Finite (5615425785377587 / 140737488355328),
       tl_p2 = Finite (2466424483427123 / 35184372088832),
       tl_q2 = PlusInf, tl_M_total = PlusInf \<rparr>"
  "twoLensResult (Finite 200) (Finite 100) (Finite 50) (Finite 200) =
     \<lparr> tl_q1 = Finite 200, tl_p2 = Finite 0, tl_q2 = Finite 0, tl_M_total = NaN \<rparr>"
  "twoLensResult (Finite 100) (Finite 100) (Finite 50) (Finite 300) =
     \<lparr> tl_q1 = PlusInf, tl_p2 = PlusInf, tl_q2 = Finite 50, tl_M_total = Finite (- (1 / 2)) \<rparr>"
  "twoLensResult (Finite 200) (Finite 100) (Finite 100) (Finite 300) =
     \<lparr> tl_q1 = Finite 200, tl_p2 = Finite 100, tl_q2 = PlusInf, tl_M_total = PlusInf \<rparr>"
  "twoLensResult (Finite 200) (Finite 100) (Finite 50) (Finite 300) =
     \<lparr> tl_q1 = Finite 200, tl_p2 = Finite 100, tl_q2 = Finite 100, tl_M_total = Finite 1 \<rparr>"
  by code_simp+

text \<open>
  C4.  For every two-lens calculation, in the arithmetic of the language: \<open>q1\<close> is
  \<open>p1 f1 / (p1 - f1)\<close> when \<open>|p1 - f1| > 0.1\<close> and the infinite sentinel otherwise, in
  particular when \<open>p1 = f1\<close>; for integer-valued \<open>p1\<close> and \<open>f1\<close> below \<open>2\<^sup>2\<^sup>6\<close> in size
  (every slider state is one) \<open>q1\<close> is finite exactly when \<open>p1 \<noteq> f1\<close>, and is then the
  quotient rounded once.  When \<open>q1\<close> is not finite the result has \<open>p2\<close> infinite,
  \<open>q2 = f2\<close> and \<open>M = -f2/f1\<close>.  Otherwise \<open>p2 = separation - q1\<close>; if
  \<open>|p2 - f2| < 0.1\<close> both \<open>q2\<close> and \<open>M\<close> are infinite, else
  \<open>q2 = p2 f2 / (p2 - f2)\<close> and \<open>M = (-q1/p1) (-q2/p2)\<close>.
\<close>

theorem two_lens_cases:
  fixes p1 f1 f2 sep :: double and a b :: int
  defines "r \<equiv> twoLensResult p1 f1 f2 sep"
  shows
    "tl_q1 r = (if js_gt (js_abs (js_sub p1 f1)) (binary64 0.1)
                then js_div (js_mul p1 f1) (js_sub p1 f1) else PlusInf) \<and>
     (p1 = f1 \<longrightarrow> tl_q1 r = PlusInf) \<and>
     (\<bar>a\<bar> < 2 ^ 26 \<and> \<bar>b\<bar> < 2 ^ 26 \<and> p1 = Finite (of_int a) \<and> f1 = Finite (of_int b) \<longrightarrow>
        (isFinite (tl_q1 r) \<longleftrightarrow> a \<noteq> b) \<and>
        (a \<noteq> b \<longrightarrow> tl_q1 r = binary64 (of_int a * of_int b / (of_int a - of_int b)))) \<and>
     (\<not> isFinite (tl_q1 r) \<longrightarrow>
        tl_p2 r = PlusInf \<and> tl_q2 r = f2 \<and> tl_M_total r = js_div (js_neg f2) f1) \<and>
     (isFinite (tl_q1 r) \<longrightarrow>
        tl_p2 r = js_sub sep (tl_q1 r) \<and>
        (js_lt (js_abs (js_sub (tl_p2 r) f2)) (binary64 0.1) \<longrightarrow>
           tl_q2 r = PlusInf \<and> tl_M_total r = PlusInf) \<and>
        (\<not> js_lt (js_abs (js_sub (tl_p2 r) f2)) (binary64 0.1) \<longrightarrow>
           tl_q2 r = js_div (js_mul (tl_p2 r) f2) (js_sub (tl_p2 r) f2) \<and>
           tl_M_total r =
             js_mul (js_div (js_neg (tl_q1 r)) p1) (js_div (js_neg (tl_q2 r)) (tl_p2 r))))"
proof (intro conjI)
  show "tl_q1 r = (if js_gt (js_abs (js_sub p1 f1)) (binary64 0.1)
                then js_div (js_mul p1 f1) (js_sub p1 f1) else PlusInf)"
    unfolding r_def by (rule tl_q1_eq)
  show "p1 = f1 \<longrightarrow> tl_q1 r = PlusInf"
    unfolding r_def tl_q1_eq using guard_equal [of f1] by auto
  show "\<bar>a\<bar> < 2 ^ 26 \<and> \<bar>b\<bar> < 2 ^ 26 \<and> p1 = Finite (of_int a) \<and> f1 = Finite (of_int b) \<longrightarrow>
        (isFinite (tl_q1 r) \<longleftrightarrow> a \<noteq> b) \<and>
        (a \<noteq> b \<longrightarrow> tl_q1 r = binary64 (of_int a * of_int b / (of_int a - of_int b)))"
    unfolding r_def using q1_int [of a b f2 sep] by blast
  show "\<not> isFinite (tl_q1 r) \<longrightarrow>
        tl_p2 r = PlusInf \<and> tl_q2 r = f2 \<and> tl_M_total r = js_div (js_neg f2) f1"
    by (simp add: r_def twoLensResult_def Let_def)
  show "isFinite (tl_q1 r) \<longrightarrow>
        tl_p2 r = js_sub sep (tl_q1 r) \<and>
        (js_lt (js_abs (js_sub (tl_p2 r) f2)) (binary64 0.1) \<longrightarrow>
           tl_q2 r = PlusInf \<and> tl_M_total r = PlusInf) \<and>
        (\<not> js_lt (js_abs (js_sub (tl_p2 r) f2)) (binary64 0.1) \<longrightarrow>
           tl_q2 r = js_div (js_mul (tl_p2 r) f2) (js_sub (tl_p2 r) f2) \<and>
           tl_M_total r =
             js_mul (js_div (js_neg (tl_q1 r)) p1) (js_div (js_neg (tl_q2 r)) (tl_p2 r)))"
    by (simp add: r_def twoLensResult_def Let_def)
qed


theorem two_lens_cases_witness:
  "tl_q1 (twoLensResult (Finite 100) (Finite 100) (Finite 50) (Finite 300)) = PlusInf \<and>
   tl_p2 (twoLensResult (Finite 100) (Finite 100) (Finite 50) (Finite 300)) = PlusInf \<and>
   tl_q2 (twoLensResult (Finite 100) (Finite 100) (Finite 50) (Finite 300)) = Finite 50 \<and>
   tl_M_total (twoLensResult (Finite 100) (Finite 100) (Finite 50) (Finite 300)) = Finite (- (1 / 2)) \<and>
   isFinite (tl_q1 (twoLensResult (Finite 200) (Finite 100) (Finite 50) (Finite 300))) \<and>
   tl_q1 (twoLensResult (Finite 200) (Finite 100) (Finite 50) (Finite 300)) = Finite 200 \<and>
   tl_p2 (twoLensResult (Finite 200) (Finite 100) (Finite 50) (Finite 300)) = Finite 100 \<and>
   tl_q2 (twoLensResult (Finite 200) (Finite 100) (Finite 50) (Finite 300)) = Finite 100 \<and>
   tl_M_total (twoLensResult (Finite 200) (Finite 100) (Finite 50) (Finite 300)) = Finite 1 \<and>
   isFinite (tl_q1 (twoLensResult (Finite 285) (Finite 35) (Finite 70) (Finite 110))) \<and>
   js_lt (js_abs (js_sub (tl_p2 (twoLensResult (Finite 285) (Finite 35) (Finite 70) (Finite 110)))
                         (Finite 70))) (binary64 0.1) \<and>
   tl_q2 (twoLensResult (Finite 285) (Finite 35) (Finite 70) (Finite 110)) = PlusInf \<and>
   tl_M_total (twoLensResult (Finite 285) (Finite 35) (Finite 70) (Finite 110)) = PlusInf"
proof -
  let ?c = "twoLensResult (Finite 100) (Finite 100) (Finite 50) (Finite 300)"
  let ?g = "twoLensResult (Finite 200) (Finite 100) (Finite 50) (Finite 300)"
  let ?e = "twoLensResult (Finite 285) (Finite 35) (Finite 70) (Finite 110)"
  note c = two_lens_cases [where ?p1.0 = "Finite 100" and ?f1.0 = "Finite 100" and ?f2.0 = "Finite 50"
      and sep = "Finite 300" and a = 100 and b = 100]
  note g = two_lens_cases [where ?p1.0 = "Finite 200" and ?f1.0 = "Finite 100" and ?f2.0 = "Finite 50"
      and sep = "Finite 300" and a = 200 and b = 100]
  note e = two_lens_cases [where ?p1.0 = "Finite 285" and ?f1.0 = "Finite 35" and ?f2.0 = "Finite 70"
      and sep = "Finite 110" and a = 285 and b = 35]
  note c_eq = c [THEN conjunct2, THEN conjunct1]
  note c_inf = c [THEN conjunct2, THEN conjunct2, THEN conjunct2, THEN conjunct1]
  note g_int = g [THEN conjunct2, THEN conjunct2, THEN conjunct1]
  note g_fin = g [THEN conjunct2, THEN conjunct2, THEN conjunct2, THEN conjunct2]
  note e_int = e [THEN conjunct2, THEN conjunct2, THEN conjunct1]
  note e_fin = e [THEN conjunct2, THEN conjunct2, THEN conjunct2, THEN conjunct2]
  have c1: "tl_q1 ?c = PlusInf" using c_eq by simp
  then have "\<not> isFinite (tl_q1 ?c)" by simp
  with c_inf have c2: "tl_p2 ?c = PlusInf" "tl_q2 ?c = Finite 50"
    "tl_M_total ?c = js_div (js_neg (Finite 50)) (Finite 100)"
    by blast+
  have c3: "js_div (js_neg (Finite 50)) (Finite 100) = Finite (- (1 / 2))" by code_simp
  have gi: "\<bar>200::int\<bar> < 2 ^ 26 \<and> \<bar>100::int\<bar> < 2 ^ 26 \<and> Finite 200 = Finite (of_int 200) \<and>
      Finite 100 = Finite (of_int 100)" by simp
  have gn: "(200::int) \<noteq> 100" by simp
  from g_int gi gn
  have g1: "isFinite (tl_q1 ?g)" "tl_q1 ?g = binary64 (of_int 200 * of_int 100 / (of_int 200 - of_int 100))"
    by blast+
  have g2: "binary64 (of_int 200 * of_int 100 / (of_int 200 - of_int 100)) = Finite 200" by code_simp
  have q1g: "tl_q1 ?g = Finite 200" using g1(2) g2 by (rule trans)
  from g_fin [rule_format, OF g1(1)]
  have g3: "tl_p2 ?g = js_sub (Finite 300) (tl_q1 ?g)" by blast
  have g4: "js_sub (Finite 300) (Finite 200) = Finite 100" by code_simp
  have p2g: "tl_p2 ?g = Finite 100" unfolding g3 q1g by (rule g4)
  have g5: "\<not> js_lt (js_abs (js_sub (Finite 100) (Finite 50))) (binary64 0.1)" by code_simp
  then have g5': "\<not> js_lt (js_abs (js_sub (tl_p2 ?g) (Finite 50))) (binary64 0.1)"
    unfolding p2g .
  from g_fin [rule_format, OF g1(1)] g5'
  have g6: "tl_q2 ?g = js_div (js_mul (tl_p2 ?g) (Finite 50)) (js_sub (tl_p2 ?g) (Finite 50))"
    and g8: "tl_M_total ?g =
      js_mul (js_div (js_neg (tl_q1 ?g)) (Finite 200)) (js_div (js_neg (tl_q2 ?g)) (tl_p2 ?g))"
    by blast+
  have g7: "js_div (js_mul (Finite 100) (Finite 50)) (js_sub (Finite 100) (Finite 50)) = Finite 100"
    by code_simp
  have q2g: "tl_q2 ?g = Finite 100" unfolding g6 p2g by (rule g7)
  have g9: "js_mul (js_div (js_neg (Finite 200)) (Finite 200)) (js_div (js_neg (Finite 100)) (Finite 100))
      = Finite 1" by code_simp
  have mg: "tl_M_total ?g = Finite 1" unfolding g8 q1g q2g p2g by (rule g9)
  have ei: "\<bar>285::int\<bar> < 2 ^ 26 \<and> \<bar>35::int\<bar> < 2 ^ 26 \<and> Finite 285 = Finite (of_int 285) \<and>
      Finite 35 = Finite (of_int 35)" by simp
  have en: "(285::int) \<noteq> 35" by simp
  from e_int ei en
  have e1: "isFinite (tl_q1 ?e)" "tl_q1 ?e = binary64 (of_int 285 * of_int 35 / (of_int 285 - of_int 35))"
    by blast+
  from e_fin [rule_format, OF e1(1)]
  have e2: "tl_p2 ?e = js_sub (Finite 110) (tl_q1 ?e)" by blast
  have e3: "js_lt (js_abs (js_sub (js_sub (Finite 110)
      (binary64 (of_int 285 * of_int 35 / (of_int 285 - of_int 35)))) (Finite 70))) (binary64 0.1)"
    by code_simp
  have e4: "js_lt (js_abs (js_sub (tl_p2 ?e) (Finite 70))) (binary64 0.1)"
    unfolding e2 e1(2) by (rule e3)
  from e_fin [rule_format, OF e1(1)] e4
  have e5: "tl_q2 ?e = PlusInf" "tl_M_total ?e = PlusInf"
    by blast+
  show ?thesis
    using c1 c2(1,2) c2(3) [unfolded c3] g1(1) q1g p2g q2g mg e1(1) e4 e5 by blast
qed

section \<open>Properties of the prism solver\<close>

text \<open>
  C2.  With positive indices \<open>n1\<close> (environment) and \<open>n2\<close> (prism): the solver forms
  \<open>sin \<theta>2 = (n1/n2) sin \<theta>1\<close>; if its absolute value exceeds 1 the result is the
  entry-stage value, flagged TIR, which holds no angle.  Otherwise \<open>\<theta>2\<close> has that sine,
  \<open>\<theta>3 = A - \<theta>2\<close>, and when \<open>|(n2/n1) sin \<theta>3| \<le> 1\<close> the result is complete: \<open>\<theta>4\<close> has
  sine \<open>(n2/n1) sin \<theta>3\<close>, the deviation is \<open>\<theta>1 + \<theta>4 - A\<close> (reported in degrees), and
  the critical angle is \<open>arcsin (n1/n2)\<close> (in degrees) exactly when \<open>n2 > n1\<close>, otherwise
  null.
\<close>

theorem prism_solver:
  fixes nPrism nEnv angleA incidentAngle :: real
  assumes n1: "0 < nEnv" and n2: "0 < nPrism"
  defines "th1 \<equiv> (incidentAngle * pi) / 180"
  defines "A \<equiv> (angleA * pi) / 180"
  defines "s2 \<equiv> (nEnv / nPrism) * sin th1"
  defines "s4 \<equiv> (nPrism / nEnv) * sin (A - arcsin s2)"
  defines "r \<equiv> prism_result nPrism nEnv angleA incidentAngle"
  shows "(\<bar>s2\<bar> > 1 \<longrightarrow> r = EntryTIR \<and> result_isTIR r \<and> result_stage r = ''entry'') \<and>
         (\<not> \<bar>s2\<bar> > 1 \<longrightarrow>
            (\<exists>t. r = Traced t \<and> theta1Rad t = th1 \<and>
                 sin (theta2Rad t) = s2 \<and> theta2Rad t = arcsin s2 \<and>
                 theta3Rad t = A - theta2Rad t \<and>
                 (\<not> \<bar>s4\<bar> > 1 \<longrightarrow>
                    \<not> isTIR t \<and> stage t = ''complete'' \<and>
                    sin (theta4Rad t) = (nPrism / nEnv) * sin (theta3Rad t) \<and>
                    theta4Rad t = arcsin s4 \<and>
                    deviationDeg t = (theta1Rad t + theta4Rad t - A) * 180 / pi \<and>
                    deviationDeg t = incidentAngle + theta4Rad t * 180 / pi - angleA \<and>
                    criticalAngle t =
                      (if nPrism > nEnv then Some (arcsin (nEnv / nPrism) * 180 / pi) else None))))"
proof (intro conjI impI)
  assume "\<bar>s2\<bar> > 1"
  then have "r = EntryTIR"
    by (simp add: r_def s2_def th1_def prism_result_def Let_def)
  then show "r = EntryTIR" "result_isTIR r" "result_stage r = ''entry''" by simp_all
next
  assume ok: "\<not> \<bar>s2\<bar> > 1"
  then have b2: "- 1 \<le> s2" "s2 \<le> 1" by auto
  define theta4 where "theta4 = (if \<bar>s4\<bar> > 1 then 0 else arcsin s4)"
  define t where "t = \<lparr> theta1Rad = th1, theta2Rad = arcsin s2, theta3Rad = A - arcsin s2,
      theta4Rad = theta4, deviationDeg = ((th1 + theta4 - A) * 180) / pi,
      isTIR = (\<bar>s4\<bar> > 1), stage = (if \<bar>s4\<bar> > 1 then ''exit'' else ''complete''),
      criticalAngle = (if nPrism > nEnv then Some (arcsin (nEnv / nPrism) * 180 / pi) else None) \<rparr>"
  have r: "r = Traced t"
    using ok
    by (simp add: r_def t_def theta4_def s2_def s4_def th1_def A_def prism_result_def Let_def)
  have basic: "theta1Rad t = th1" "theta2Rad t = arcsin s2" "theta3Rad t = A - theta2Rad t"
    by (simp_all add: t_def)
  have sin2: "sin (theta2Rad t) = s2"
    using b2 by (simp add: t_def)
  have complete: "\<not> isTIR t \<and> stage t = ''complete'' \<and>
                    sin (theta4Rad t) = (nPrism / nEnv) * sin (theta3Rad t) \<and>
                    theta4Rad t = arcsin s4 \<and>
                    deviationDeg t = (theta1Rad t + theta4Rad t - A) * 180 / pi \<and>
                    deviationDeg t = incidentAngle + theta4Rad t * 180 / pi - angleA \<and>
                    criticalAngle t =
                      (if nPrism > nEnv then Some (arcsin (nEnv / nPrism) * 180 / pi) else None)"
    if c: "\<not> \<bar>s4\<bar> > 1"
  proof -
    from c have b4: "- 1 \<le> s4" "s4 \<le> 1" by auto
    have "sin (arcsin s4) = s4" using b4 by simp
    then have s: "sin (theta4Rad t) = (nPrism / nEnv) * sin (theta3Rad t)"
      using c by (simp add: t_def theta4_def s4_def)
    have d: "deviationDeg t = incidentAngle + theta4Rad t * 180 / pi - angleA"
      by (simp add: t_def th1_def A_def field_simps)
    have e: "\<not> isTIR t" "stage t = ''complete''" "theta4Rad t = arcsin s4"
      "deviationDeg t = (theta1Rad t + theta4Rad t - A) * 180 / pi"
      "criticalAngle t =
         (if nPrism > nEnv then Some (arcsin (nEnv / nPrism) * 180 / pi) else None)"
      using c by (simp_all add: t_def theta4_def)
    show ?thesis using e s d by blast
  qed
  show "\<exists>t. r = Traced t \<and> theta1Rad t = th1 \<and>
                 sin (theta2Rad t) = s2 \<and> theta2Rad t = arcsin s2 \<and>
                 theta3Rad t = A - theta2Rad t \<and>
                 (\<not> \<bar>s4\<bar> > 1 \<longrightarrow>
                    \<not> isTIR t \<and> stage t = ''complete'' \<and>
                    sin (theta4Rad t) = (nPrism / nEnv) * sin (theta3Rad t) \<and>
                    theta4Rad t = arcsin s4 \<and>
                    deviationDeg t = (theta1Rad t + theta4Rad t - A) * 180 / pi \<and>
                    deviationDeg t = incidentAngle + theta4Rad t * 180 / pi - angleA \<and>
                    criticalAngle t =
                      (if nPrism > nEnv then Some (arcsin (nEnv / nPrism) * 180 / pi) else None))"
    using r basic sin2 complete by blast
qed

theorem prism_solver_witness:
  "(0::real) < 1 \<and> (0::real) < 3/2 \<and>
   prism_result 1 (3/2) 60 90 = EntryTIR \<and>
   (\<exists>t. prism_result (3/2) 1 30 0 = Traced t \<and> theta2Rad t = 0 \<and> theta3Rad t = pi / 6 \<and>
        \<not> isTIR t \<and> stage t = ''complete'' \<and> theta4Rad t = arcsin (3/4) \<and>
        criticalAngle t = Some (arcsin (2/3) * 180 / pi))"
  using prism_solver [where nPrism = 1 and nEnv = "3/2" and angleA = 60 and incidentAngle = 90]
        prism_solver [where nPrism = "3/2" and nEnv = 1 and angleA = 30 and incidentAngle = 0]
  by (auto simp: sin_30)

text \<open>
  C3, as stated, leaves \<open>\<theta>4\<close> and the deviation undefined at exit-stage TIR.  At
  \<open>n2 = 2\<close>, \<open>n1 = 1\<close>, \<open>A = 90\<close> degrees, \<open>\<theta>1 = 0\<close> the exit sine is 2, and the result
  holds \<open>\<theta>4 = 0\<close> and the number \<open>-90\<close> as deviation, computed with that \<open>\<theta>4\<close>.
\<close>

theorem prism_exit_tir_counterexample:
  "prism_result 2 1 90 0 =
     Traced \<lparr> theta1Rad = 0, theta2Rad = 0, theta3Rad = pi / 2, theta4Rad = 0,
              deviationDeg = - 90, isTIR = True, stage = ''exit'',
              criticalAngle = Some (arcsin (1 / 2) * 180 / pi) \<rparr>"
  by (simp add: prism_result_def Let_def)

text \<open>
  C3, amended.  For every prism input with positive indices that passes the entry
  interface and has \<open>|sin \<theta>4| > 1\<close> at the exit: the result is flagged \<open>isTIR\<close> with stage
  \<^verbatim>\<open>exit\<close>, which tells it from the complete case; \<open>\<theta>4\<close> is reported as the placeholder
  \<open>0\<close> and the deviation field holds the number computed with it,
  \<open>\<theta>1 + 0 - A\<close>, that is \<open>incidentAngle - angleA\<close> degrees.
\<close>

theorem prism_exit_tir:
  fixes nPrism nEnv angleA incidentAngle :: real
  assumes n1: "0 < nEnv" and n2: "0 < nPrism"
    and entry: "\<not> \<bar>(nEnv / nPrism) * sin ((incidentAngle * pi) / 180)\<bar> > 1"
    and exit: "\<bar>(nPrism / nEnv) *
                 sin ((angleA * pi) / 180 - arcsin ((nEnv / nPrism) * sin ((incidentAngle * pi) / 180)))\<bar> > 1"
  shows "\<exists>t. prism_result nPrism nEnv angleA incidentAngle = Traced t \<and>
             isTIR t \<and> stage t = ''exit'' \<and> stage t \<noteq> ''complete'' \<and>
             theta4Rad t = 0 \<and>
             deviationDeg t = (theta1Rad t + 0 - (angleA * pi) / 180) * 180 / pi \<and>
             deviationDeg t = incidentAngle - angleA"
  using entry exit by (simp add: prism_result_def Let_def field_simps)

theorem prism_exit_tir_witness:
  "(0::real) < 1 \<and> (0::real) < 2 \<and>
   (\<exists>t. prism_result 2 1 90 0 = Traced t \<and> isTIR t \<and> stage t = ''exit'' \<and>
        theta4Rad t = 0 \<and> deviationDeg t = 0 - 90)"
  using prism_exit_tir [where nPrism = 2 and nEnv = 1 and angleA = 90 and incidentAngle = 0]
  by auto

section \<open>Properties of the diffraction pattern\<close>

lemma diffraction_bounds: "0 \<le> diffraction b \<and> diffraction b \<le> 1"
proof (cases "b = 0")
  case True
  then show ?thesis by (simp add: diffraction_def)
next
  case False
  have "\<bar>sin b\<bar> \<le> \<bar>b\<bar>" by (rule abs_sin_x_le_abs_x)
  then have "\<bar>sin b / b\<bar> \<le> 1" using False by (simp add: field_simps)
  then have "(sin b / b)\<^sup>2 \<le> 1" by (simp add: abs_square_le_1)
  then show ?thesis using False by (simp add: diffraction_def)
qed

lemma interference_bounds: "0 \<le> interference md al \<and> interference md al \<le> 1"
proof (cases md)
  case Single
  then show ?thesis by (simp add: interference_def)
next
  case Double
  have "\<bar>cos al\<bar> \<le> 1" by simp
  then have "(cos al)\<^sup>2 \<le> 1" by (simp add: abs_square_le_1)
  then show ?thesis using Double by (simp add: interference_def)
qed

text \<open>
  C8.  For wavelength \<open>\<lambda> > 0\<close>, slit width \<open>a\<close>, separation \<open>d\<close>, screen distance
  \<open>L \<noteq> 0\<close> and position \<open>y\<close>, with \<open>sin \<theta> = y / L\<close> and \<open>\<beta> = \<pi> a sin \<theta> / \<lambda>\<close>: the intensity
  is the diffraction factor (1 when \<open>\<beta> = 0\<close>, else \<open>(sin \<beta> / \<beta>)\<^sup>2\<close>) times the
  interference factor (\<open>cos\<^sup>2 (\<pi> d sin \<theta> / \<lambda>)\<close> for the double slit, 1 for the single
  slit); at \<open>y = 0\<close> the intensity is 1.
\<close>

theorem intensity_formula:
  fixes lambda a d L y :: real
  assumes lam: "0 < lambda" and L: "L \<noteq> 0"
  shows "intensity md lambda a d L y =
           (if pi * a * (y / L) / lambda = 0 then 1
            else (sin (pi * a * (y / L) / lambda) / (pi * a * (y / L) / lambda))\<^sup>2) *
           (case md of Double \<Rightarrow> (cos (pi * d * (y / L) / lambda))\<^sup>2 | Single \<Rightarrow> 1) \<and>
         intensity md lambda a d L 0 = 1"
  by (cases md) (simp_all add: intensity_def diffraction_def interference_def Let_def)

theorem intensity_formula_witness:
  "(0::real) < 1 \<and> (1::real) \<noteq> 0 \<and> intensity Double 1 2 6 1 (1 / 6) = (3 / pi)\<^sup>2 * 3 / 4 \<and>
   intensity Double 1 2 6 1 0 = 1"
  using intensity_formula [of 1 1 Double 2 6 "1 / 6"]
  by (simp add: sin_60 power2_eq_square field_simps)

text \<open>
  C10.  For \<open>\<lambda> > 0\<close>, \<open>L \<noteq> 0\<close> and any \<open>a\<close>, \<open>d\<close>, \<open>y\<close>, in both modes, the intensity
  lies in the closed interval from 0 to 1; the central value, at \<open>y = 0\<close>, is 1, and the
  intensity nowhere exceeds it: the pattern has its global maximum 1 at the centre.
\<close>

theorem intensity_unit_interval:
  fixes lambda a d L y :: real
  assumes lam: "0 < lambda" and L: "L \<noteq> 0"
  shows "0 \<le> intensity md lambda a d L y \<and> intensity md lambda a d L y \<le> 1 \<and>
         intensity md lambda a d L 0 = 1 \<and>
         intensity md lambda a d L y \<le> intensity md lambda a d L 0"
proof -
  let ?b = "pi * a * (y / L) / lambda" and ?al = "pi * d * (y / L) / lambda"
  have i: "intensity md lambda a d L y = diffraction ?b * interference md ?al"
    by (simp add: intensity_def Let_def)
  have c: "intensity md lambda a d L 0 = 1"
    by (simp add: intensity_def diffraction_def interference_def Let_def)
  have lo: "0 \<le> diffraction ?b * interference md ?al"
    using diffraction_bounds interference_bounds by simp
  have hi: "diffraction ?b * interference md ?al \<le> 1"
    using diffraction_bounds [of ?b] interference_bounds [of md ?al]
    by (simp add: mult_le_one)
  show ?thesis using i c lo hi by simp
qed

theorem intensity_unit_interval_witness:
  "(0::real) < 1 \<and> (1::real) \<noteq> 0 \<and>
   0 \<le> intensity Double 1 2 6 1 (1 / 6) \<and> intensity Double 1 2 6 1 (1 / 6) \<le> 1 \<and>
   intensity Double 1 2 6 1 0 = 1 \<and> intensity Single 1 2 6 1 0 = 1 \<and>
   intensity Double 1 2 6 1 (1 / 6) \<le> intensity Double 1 2 6 1 0"
  using intensity_unit_interval [of 1 1 Double 2 6 "1 / 6"]
        intensity_unit_interval [of 1 1 Single 2 6 "1 / 6"]
  by simp

text \<open>The middle pixel column of the canvas is the centre of the pattern.\<close>

lemma pixel_centre: "w \<noteq> 0 \<Longrightarrow> pixelIntensity md wl sep wd sd w (w / 2) = 1"
  by (simp add: pixelIntensity_def intensity_def diffraction_def interference_def Let_def)

section \<open>Properties of the equation normaliser\<close>

subsection \<open>Every matcher consumes input\<close>

lemma stripPrefix_Some: "stripPrefix pat s = Some r \<longleftrightarrow> s = pat @ r"
proof
  assume "stripPrefix pat s = Some r"
  then have "take (length pat) s = pat" "r = drop (length pat) s"
    by (auto simp: stripPrefix_def split: if_splits)
  then show "s = pat @ r" by (metis append_take_drop_id)
next
  assume "s = pat @ r"
  then show "stripPrefix pat s = Some r" by (simp add: stripPrefix_def)
qed

lemma expect_Some: "expect c s = Some r \<longleftrightarrow> s = c # r"
  by (cases s) auto

lemma braced_Some:
  "braced s = Some (x, rest) \<longleftrightarrow>
     x \<noteq> [] \<and> list_all notBrace x \<and> s = lbrace # x @ rbrace # rest"
proof
  assume a: "braced s = Some (x, rest)"
  then obtain r where r: "s = lbrace # r"
    by (auto simp: braced_def expect_Some split: option.splits)
  from a r have x: "x = takeWhile notBrace r" "x \<noteq> []"
    and d: "dropWhile notBrace r = rbrace # rest"
    by (auto simp: braced_def Let_def expect_Some split: option.splits if_splits)
  have "r = x @ rbrace # rest"
    using takeWhile_dropWhile_id [of notBrace r] x(1) d by simp
  moreover have "list_all notBrace x"
    unfolding x(1) list_all_iff by (auto dest: set_takeWhileD)
  ultimately show "x \<noteq> [] \<and> list_all notBrace x \<and> s = lbrace # x @ rbrace # rest"
    using r x(2) by simp
next
  assume b: "x \<noteq> [] \<and> list_all notBrace x \<and> s = lbrace # x @ rbrace # rest"
  then have nb: "\<forall>c\<in>set x. notBrace c" by (simp add: list_all_iff)
  have nr: "\<not> notBrace rbrace" by (simp add: notBrace_def rbrace_def)
  have t: "takeWhile notBrace (x @ rbrace # rest) = x"
    using nb nr by (simp add: takeWhile_tail)
  have d: "dropWhile notBrace (x @ rbrace # rest) = rbrace # rest"
    using nb nr by (simp add: dropWhile_append3)
  show "braced s = Some (x, rest)"
    using b t d by (simp add: braced_def)
qed

lemma parenToken_Some:
  "parenToken s = Some (x, rest) \<longleftrightarrow>
     x \<noteq> [] \<and> list_all isToken x \<and> s = lparen # x @ rparen # rest"
proof
  assume a: "parenToken s = Some (x, rest)"
  then obtain r where r: "s = lparen # r"
    by (auto simp: parenToken_def expect_Some split: option.splits)
  from a r have x: "x = takeWhile isToken r" "x \<noteq> []"
    and d: "dropWhile isToken r = rparen # rest"
    by (auto simp: parenToken_def Let_def expect_Some split: option.splits if_splits)
  have "r = x @ rparen # rest"
    using takeWhile_dropWhile_id [of isToken r] x(1) d by simp
  moreover have "list_all isToken x"
    unfolding x(1) list_all_iff by (auto dest: set_takeWhileD)
  ultimately show "x \<noteq> [] \<and> list_all isToken x \<and> s = lparen # x @ rparen # rest"
    using r x(2) by simp
next
  assume b: "x \<noteq> [] \<and> list_all isToken x \<and> s = lparen # x @ rparen # rest"
  then have nb: "\<forall>c\<in>set x. isToken c" by (simp add: list_all_iff)
  have nr: "\<not> isToken rparen" by (simp add: isToken_def isAlnum_def rparen_def)
  have t: "takeWhile isToken (x @ rparen # rest) = x"
    using nb nr by (simp add: takeWhile_tail)
  have d: "dropWhile isToken (x @ rparen # rest) = rparen # rest"
    using nb nr by (simp add: dropWhile_append3)
  show "parenToken s = Some (x, rest)"
    using b t d by (simp add: parenToken_def)
qed

lemma braced_length: "braced s = Some (x, rest) \<Longrightarrow> length rest < length s"
  by (simp add: braced_Some)

lemma parenToken_length: "parenToken s = Some (x, rest) \<Longrightarrow> length rest < length s"
  by (simp add: parenToken_Some)

lemma stripPrefix_None: "stripPrefix pat s = None \<longleftrightarrow> (\<forall>r. s \<noteq> pat @ r)"
  using stripPrefix_Some [of pat s] by (cases "stripPrefix pat s") auto

lemma command_Some:
  "command name s = Some r \<longleftrightarrow>
     (\<exists>r0. s = backslash # ascii name @ r0 \<and> r = dropWhile isSpace r0)"
  by (auto simp: command_def stripPrefix_Some stripPrefix_None split: option.splits)

lemma command_length: "command name s = Some r \<Longrightarrow> length r < length s"
proof -
  assume "command name s = Some r"
  then obtain r0 where s: "s = backslash # ascii name @ r0" and r: "r = dropWhile isSpace r0"
    by (auto simp: command_Some)
  have "length r \<le> length r0" unfolding r by (rule length_dropWhile_le)
  then show ?thesis using s by simp
qed

lemma m_spacing_length: "m_spacing s = Some (rep, rest) \<Longrightarrow> length rest < length s"
  by (cases s rule: m_spacing.cases) (auto split: if_splits)

lemma m_escapedSpace_length: "m_escapedSpace s = Some (rep, rest) \<Longrightarrow> length rest < length s"
  by (cases s rule: m_escapedSpace.cases) (auto split: if_splits)

lemma m_whitespace_length: "m_whitespace s = Some (rep, rest) \<Longrightarrow> length rest < length s"
proof (cases s)
  case Nil
  assume "m_whitespace s = Some (rep, rest)"
  with Nil show ?thesis by simp
next
  case (Cons c r)
  assume "m_whitespace s = Some (rep, rest)"
  with Cons have "rest = dropWhile isSpace r" by (simp split: if_splits)
  then have "length rest \<le> length r" by (simp add: length_dropWhile_le)
  with Cons show ?thesis by simp
qed

lemma m_remove_length: "m_remove name s = Some (rep, rest) \<Longrightarrow> length rest < length s"
  by (cases "stripPrefix (backslash # ascii name) s")
     (simp_all add: m_remove_def stripPrefix_Some)

lemma m_text_length: "m_text s = Some (rep, rest) \<Longrightarrow> length rest < length s"
proof -
  assume a: "m_text s = Some (rep, rest)"
  then obtain r x where r: "command ''text'' s = Some r" and b: "braced r = Some (x, rest)"
    by (auto simp: m_text_def split: option.splits)
  show ?thesis using command_length [OF r] braced_length [OF b] by simp
qed

lemma m_sqrt_length: "m_sqrt s = Some (rep, rest) \<Longrightarrow> length rest < length s"
proof -
  assume a: "m_sqrt s = Some (rep, rest)"
  then obtain r x where r: "command ''sqrt'' s = Some r" and b: "braced r = Some (x, rest)"
    by (auto simp: m_sqrt_def split: option.splits)
  show ?thesis using command_length [OF r] braced_length [OF b] by simp
qed

lemma m_root_length: "m_root s = Some (rep, rest) \<Longrightarrow> length rest < length s"
proof -
  assume a: "m_root s = Some (rep, rest)"
  then obtain r r1 where r: "command ''sqrt'' s = Some r" and r1: "expect lbracket r = Some r1"
    by (auto simp: m_root_def split: option.splits)
  with a obtain x where b: "braced (dropWhile notBrace r1) = Some (x, rest)"
    by (auto simp: m_root_def Let_def split: option.splits if_splits)
  have "length rest < length (dropWhile notBrace r1)" by (rule braced_length [OF b])
  also have "\<dots> \<le> length r1" by (rule length_dropWhile_le)
  finally show ?thesis using command_length [OF r] r1 by (simp add: expect_Some)
qed

lemma m_frac_length: "m_frac s = Some (rep, rest) \<Longrightarrow> length rest < length s"
proof -
  assume a: "m_frac s = Some (rep, rest)"
  then obtain r a1 r1 where r: "command ''frac'' s = Some r"
    and b1: "braced r = Some (a1, r1)"
    by (auto simp: m_frac_def split: option.splits)
  with a obtain b2 where b2: "braced (dropWhile isSpace r1) = Some (b2, rest)"
    by (auto simp: m_frac_def split: option.splits)
  have "length rest < length (dropWhile isSpace r1)" by (rule braced_length [OF b2])
  also have "\<dots> \<le> length r1" by (rule length_dropWhile_le)
  finally show ?thesis using command_length [OF r] braced_length [OF b1] by simp
qed

lemma m_sub_length: "m_sub s = Some (rep, rest) \<Longrightarrow> length rest < length s"
proof -
  assume a: "m_sub s = Some (rep, rest)"
  then obtain r where r: "expect underscore s = Some r"
    by (auto simp: m_sub_def split: option.splits)
  with a obtain x where b: "braced r = Some (x, rest)"
    by (auto simp: m_sub_def Let_def split: option.splits)
  show ?thesis using r braced_length [OF b] by (simp add: expect_Some)
qed

lemma m_sup_length: "m_sup s = Some (rep, rest) \<Longrightarrow> length rest < length s"
proof -
  assume a: "m_sup s = Some (rep, rest)"
  then obtain r where r: "expect caret s = Some r"
    by (auto simp: m_sup_def split: option.splits)
  with a obtain x where b: "braced r = Some (x, rest)"
    by (auto simp: m_sup_def Let_def split: option.splits if_splits)
  show ?thesis using r braced_length [OF b] by (simp add: expect_Some)
qed

lemma m_subChar_length: "m_subChar s = Some (rep, rest) \<Longrightarrow> length rest < length s"
  by (cases s rule: m_subChar.cases) (auto split: if_splits)

lemma m_supChar_length: "m_supChar s = Some (rep, rest) \<Longrightarrow> length rest < length s"
  by (cases s rule: m_supChar.cases) (auto split: if_splits)

lemma m_anyBrace_length: "m_anyBrace s = Some (rep, rest) \<Longrightarrow> length rest < length s"
  by (cases s) (auto split: if_splits)

lemma m_polishFrac_Some:
  "m_polishFrac s = Some (rep, rest) \<longleftrightarrow>
     (\<exists>a b. a \<noteq> [] \<and> b \<noteq> [] \<and> list_all isToken a \<and> list_all isToken b \<and>
            s = lparen # a @ rparen # slash # lparen # b @ rparen # rest \<and>
            rep = a @ slash # b)"
proof
  assume a: "m_polishFrac s = Some (rep, rest)"
  then obtain a1 r1 where p1: "parenToken s = Some (a1, r1)"
    by (auto simp: m_polishFrac_def split: option.splits)
  with a obtain r2 where r2: "expect slash r1 = Some r2"
    by (auto simp: m_polishFrac_def split: option.splits)
  with a p1 obtain b1 where p2: "parenToken r2 = Some (b1, rest)" and rep: "rep = a1 @ [slash] @ b1"
    by (auto simp: m_polishFrac_def split: option.splits)
  show "\<exists>a b. a \<noteq> [] \<and> b \<noteq> [] \<and> list_all isToken a \<and> list_all isToken b \<and>
            s = lparen # a @ rparen # slash # lparen # b @ rparen # rest \<and>
            rep = a @ slash # b"
    using p1 r2 p2 rep by (intro exI [of _ a1] exI [of _ b1]) (simp add: parenToken_Some expect_Some)
next
  assume "\<exists>a b. a \<noteq> [] \<and> b \<noteq> [] \<and> list_all isToken a \<and> list_all isToken b \<and>
            s = lparen # a @ rparen # slash # lparen # b @ rparen # rest \<and>
            rep = a @ slash # b"
  then obtain a b where ab: "a \<noteq> []" "b \<noteq> []" "list_all isToken a" "list_all isToken b"
    "s = lparen # a @ rparen # slash # lparen # b @ rparen # rest" "rep = a @ slash # b"
    by blast
  have p1: "parenToken s = Some (a, slash # lparen # b @ rparen # rest)"
    using ab by (simp add: parenToken_Some)
  have p2: "parenToken (lparen # b @ rparen # rest) = Some (b, rest)"
    using ab by (simp add: parenToken_Some)
  show "m_polishFrac s = Some (rep, rest)"
    using p1 p2 ab(6) by (simp add: m_polishFrac_def)
qed

lemma m_polishFrac_length: "m_polishFrac s = Some (rep, rest) \<Longrightarrow> length rest < length s"
  by (auto simp: m_polishFrac_Some)

lemma m_polishSup_length: "m_polishSup s = Some (rep, rest) \<Longrightarrow> length rest < length s"
  by (cases s rule: m_polishSup.cases) (auto split: if_splits)

lemmas matchers_consume =
  m_spacing_length m_escapedSpace_length m_whitespace_length m_remove_length
  m_text_length m_sqrt_length m_root_length m_frac_length m_sub_length m_sup_length
  m_subChar_length m_supChar_length m_anyBrace_length m_polishFrac_length m_polishSup_length

subsection \<open>The loop\<close>

lemma funpow_shift: "(f ^^ d) (f x) = (f ^^ Suc d) x"
  by (simp add: funpow_swap1)

lemma resolveLoop_spec:
  "l < maxLoops \<Longrightarrow>
   \<exists>d. 0 < d \<and> l + d \<le> maxLoops \<and>
       resolveLoop s l = ((structuralPass ^^ d) s, l + d) \<and>
       (l + d < maxLoops \<longrightarrow> (structuralPass ^^ d) s = (structuralPass ^^ (d - 1)) s) \<and>
       (\<forall>k. 0 < k \<and> k < d \<longrightarrow> (structuralPass ^^ k) s \<noteq> (structuralPass ^^ (k - 1)) s)"
proof (induction s l rule: resolveLoop.induct)
  case (1 s l)
  show ?case
  proof (cases "structuralPass s \<noteq> s \<and> l + 1 < maxLoops")
    case False
    then have r: "resolveLoop s l = (structuralPass s, l + 1)"
      by (subst resolveLoop.simps) (auto simp: Let_def)
    have "l + 1 < maxLoops \<longrightarrow> structuralPass s = s" using False by blast
    then show ?thesis
      using r "1.prems" by (intro exI [of _ 1]) auto
  next
    case True
    then have r: "resolveLoop s l = resolveLoop (structuralPass s) (l + 1)"
      by (subst resolveLoop.simps) (auto simp: Let_def)
    from True have lt: "l + 1 < maxLoops" by simp
    from "1.IH" [OF refl refl refl True lt]
    obtain d where d: "0 < d" "l + 1 + d \<le> maxLoops"
      "resolveLoop (structuralPass s) (l + 1) = ((structuralPass ^^ d) (structuralPass s), l + 1 + d)"
      "l + 1 + d < maxLoops \<longrightarrow>
         (structuralPass ^^ d) (structuralPass s) = (structuralPass ^^ (d - 1)) (structuralPass s)"
      "\<forall>k. 0 < k \<and> k < d \<longrightarrow>
         (structuralPass ^^ k) (structuralPass s) \<noteq> (structuralPass ^^ (k - 1)) (structuralPass s)"
      by blast
    obtain e where e: "d = Suc e" using d(1) by (cases d) auto
    have res: "resolveLoop s l = ((structuralPass ^^ Suc d) s, l + Suc d)"
      using r d(3) by (simp only: funpow_shift) simp
    have unchanged: "l + Suc d < maxLoops \<longrightarrow>
        (structuralPass ^^ Suc d) s = (structuralPass ^^ (Suc d - 1)) s"
    proof
      assume "l + Suc d < maxLoops"
      then have "(structuralPass ^^ d) (structuralPass s) = (structuralPass ^^ e) (structuralPass s)"
        using d(4) e by simp
      then have "(structuralPass ^^ Suc d) s = (structuralPass ^^ Suc e) s"
        by (simp only: funpow_shift)
      then show "(structuralPass ^^ Suc d) s = (structuralPass ^^ (Suc d - 1)) s"
        using e by simp
    qed
    have steps: "(structuralPass ^^ k) s \<noteq> (structuralPass ^^ (k - 1)) s"
      if k: "0 < k" "k < Suc d" for k
    proof (cases "k = 1")
      case one: True
      then show ?thesis using True by simp
    next
      case False
      with k obtain j where j: "k = Suc j" "0 < j" "j < d" by (cases k) auto
      then obtain i where i: "j = Suc i" by (cases j) auto
      from d(5) j have "(structuralPass ^^ j) (structuralPass s) \<noteq> (structuralPass ^^ (j - 1)) (structuralPass s)"
        by blast
      then have "(structuralPass ^^ Suc j) s \<noteq> (structuralPass ^^ Suc i) s"
        using i by (simp only: funpow_shift) simp
      then show ?thesis using j i by simp
    qed
    show ?thesis
      using d(2) res unchanged steps by (intro exI [of _ "Suc d"]) auto
  qed
qed

subsection \<open>Global replacement, step by step\<close>

lemma replaceAll_None: "m (c # cs) = None \<Longrightarrow> replaceAll m (c # cs) = c # replaceAll m cs"
  by simp

lemma replaceAll_Some:
  "m (c # cs) = Some (rep, rest) \<Longrightarrow> length rest < length (c # cs) \<Longrightarrow>
   replaceAll m (c # cs) = rep @ replaceAll m rest"
  by simp

lemma replaceAll_id:
  "(\<And>c r. c \<in> set s \<Longrightarrow> m (c # r) = None) \<Longrightarrow> replaceAll m s = s"
  by (induction s) simp_all

lemma replaceAll_append_id:
  "(\<And>c r. c \<in> set u \<Longrightarrow> m (c # r) = None) \<Longrightarrow> replaceAll m (u @ z) = u @ replaceAll m z"
  by (induction u) simp_all

subsection \<open>The fraction polish is idempotent\<close>

lemma token_facts:
  "\<not> isToken lparen" "\<not> isToken rparen" "\<not> isToken slash" "\<not> isToken space"
  "\<not> isToken caret" "lparen \<noteq> slash" "rparen \<noteq> slash"
  by (simp_all add: isToken_def isAlnum_def lparen_def rparen_def slash_def space_def caret_def)

lemma m_polishFrac_hd: "c \<noteq> lparen \<Longrightarrow> m_polishFrac (c # r) = None"
  by (simp add: m_polishFrac_def parenToken_def)

lemma polishFrac_Some_step:
  assumes "m_polishFrac (c # cs) = Some (rep, rest)"
  shows "replaceAll m_polishFrac (c # cs) = rep @ replaceAll m_polishFrac rest"
  using assms m_polishFrac_length [OF assms] by simp

lemma token_run_unique:
  assumes "list_all isToken a" "list_all isToken b" "\<not> isToken d" "\<not> isToken e"
    and "a @ d # u = b @ e # v"
  shows "a = b \<and> d = e \<and> u = v"
proof -
  have "takeWhile isToken (a @ d # u) = a" "takeWhile isToken (b @ e # v) = b"
    using assms(1-4) by (simp_all add: list_all_iff takeWhile_tail)
  with assms(5) have "a = b" by simp
  with assms(5) show ?thesis by simp
qed

lemma polishFrac_copy_char:
  assumes "replaceAll m_polishFrac s = d # z" "\<not> isToken d"
  shows "\<exists>z'. s = d # z' \<and> replaceAll m_polishFrac z' = z"
proof (cases s)
  case Nil
  with assms show ?thesis by simp
next
  case (Cons c cs)
  show ?thesis
  proof (cases "m_polishFrac (c # cs)")
    case None
    with assms Cons show ?thesis by simp
  next
    case (Some p)
    obtain rep rest where p: "p = (rep, rest)" by (cases p)
    from Some p obtain a b where ab: "a \<noteq> []" "list_all isToken a" "rep = a @ slash # b"
      by (auto simp: m_polishFrac_Some)
    have "replaceAll m_polishFrac s = rep @ replaceAll m_polishFrac rest"
      using Some p Cons polishFrac_Some_step by simp
    with assms(1) ab have "hd a = d" by (cases a) auto
    with ab assms(2) show ?thesis by (cases a) auto
  qed
qed

lemma polishFrac_copy_run:
  assumes "list_all isToken x" "\<not> isToken d" "d \<noteq> slash"
    and "replaceAll m_polishFrac s = x @ d # z"
  shows "\<exists>z'. s = x @ d # z' \<and> replaceAll m_polishFrac z' = z"
  using assms
proof (induction x arbitrary: s)
  case Nil
  then show ?case using polishFrac_copy_char [of s d z] by simp
next
  case (Cons y x)
  show ?case
  proof (cases s)
    case Nil
    with Cons.prems show ?thesis by simp
  next
    case s: (Cons c cs)
    show ?thesis
    proof (cases "m_polishFrac (c # cs)")
      case None
      with Cons.prems(4) s have c: "c = y" and r: "replaceAll m_polishFrac cs = x @ d # z"
        by simp_all
      from Cons.IH [OF _ Cons.prems(2,3) r] Cons.prems(1)
      obtain z' where "cs = x @ d # z'" "replaceAll m_polishFrac z' = z" by auto
      with c s show ?thesis by simp
    next
      case (Some p)
      obtain rep rest where p: "p = (rep, rest)" by (cases p)
      from Some p obtain a b where ab: "list_all isToken a" "rep = a @ slash # b"
        by (auto simp: m_polishFrac_Some)
      have "replaceAll m_polishFrac s = rep @ replaceAll m_polishFrac rest"
        using Some p s polishFrac_Some_step by simp
      with Cons.prems(4) ab
      have "a @ slash # (b @ replaceAll m_polishFrac rest) = (y # x) @ d # z" by simp
      from token_run_unique [OF ab(1) Cons.prems(1) token_facts(3) Cons.prems(2) this]
      have "slash = d" by simp
      with Cons.prems(3) show ?thesis by simp
    qed
  qed
qed

lemma polishFrac_no_new_match:
  assumes "m_polishFrac (c # cs) = None"
  shows "m_polishFrac (c # replaceAll m_polishFrac cs) = None"
proof (rule ccontr)
  assume "m_polishFrac (c # replaceAll m_polishFrac cs) \<noteq> None"
  then obtain rep rest where "m_polishFrac (c # replaceAll m_polishFrac cs) = Some (rep, rest)"
    by auto
  then obtain a b where ab: "a \<noteq> []" "b \<noteq> []" "list_all isToken a" "list_all isToken b"
    and c: "c = lparen"
    and r: "replaceAll m_polishFrac cs = a @ rparen # slash # lparen # b @ rparen # rest"
    by (auto simp: m_polishFrac_Some)
  from polishFrac_copy_run [OF ab(3) token_facts(2) token_facts(7) r]
  obtain z1 where z1: "cs = a @ rparen # z1"
    "replaceAll m_polishFrac z1 = slash # lparen # b @ rparen # rest" by blast
  from polishFrac_copy_char [OF z1(2) token_facts(3)]
  obtain z2 where z2: "z1 = slash # z2" "replaceAll m_polishFrac z2 = lparen # b @ rparen # rest"
    by blast
  from polishFrac_copy_char [OF z2(2) token_facts(1)]
  obtain z3 where z3: "z2 = lparen # z3" "replaceAll m_polishFrac z3 = b @ rparen # rest"
    by blast
  from polishFrac_copy_run [OF ab(4) token_facts(2) token_facts(7) z3(2)]
  obtain z4 where z4: "z3 = b @ rparen # z4" by blast
  have eq: "c # cs = lparen # a @ rparen # slash # lparen # b @ rparen # z4"
    using c z1(1) z2(1) z3(1) z4 by simp
  have "m_polishFrac (c # cs) = Some (a @ slash # b, z4)"
    unfolding m_polishFrac_Some using ab eq by blast
  with assms show False by simp
qed

lemma polishFrac_idem:
  "replaceAll m_polishFrac (replaceAll m_polishFrac s) = replaceAll m_polishFrac s"
proof (induction s rule: length_induct)
  case (1 s)
  show ?case
  proof (cases s)
    case Nil
    then show ?thesis by simp
  next
    case (Cons c cs)
    show ?thesis
    proof (cases "m_polishFrac (c # cs)")
      case None
      have ih: "replaceAll m_polishFrac (replaceAll m_polishFrac cs) = replaceAll m_polishFrac cs"
        using 1 Cons by simp
      show ?thesis
        using None polishFrac_no_new_match [OF None] ih Cons by simp
    next
      case (Some p)
      obtain rep rest where p: "p = (rep, rest)" by (cases p)
      have len: "length rest < length s"
        using m_polishFrac_length Some p Cons by blast
      have ih: "replaceAll m_polishFrac (replaceAll m_polishFrac rest) = replaceAll m_polishFrac rest"
        using 1 len by simp
      from Some p obtain a b where ab: "list_all isToken a" "list_all isToken b" "rep = a @ slash # b"
        by (auto simp: m_polishFrac_Some)
      have nol: "\<And>x r. x \<in> set rep \<Longrightarrow> m_polishFrac (x # r) = None"
        using ab token_facts by (auto simp: list_all_iff intro!: m_polishFrac_hd)
      have "replaceAll m_polishFrac s = rep @ replaceAll m_polishFrac rest"
        using Some p Cons polishFrac_Some_step by simp
      then show ?thesis
        using replaceAll_append_id [of rep m_polishFrac, OF nol] ih by simp
    qed
  qed
qed

subsection \<open>White space after the final cleanup\<close>

lemma isSpace_space: "isSpace space"
  by (simp add: isSpace_def space_def)

lemma collapse_keep:
  "\<not> isSpace e \<Longrightarrow> replaceAll m_whitespace (e # r) = e # replaceAll m_whitespace r"
  by simp

lemma collapse_space:
  "isSpace c \<Longrightarrow>
   replaceAll m_whitespace (c # r) = space # replaceAll m_whitespace (dropWhile isSpace r)"
  by (simp add: length_dropWhile_le)

lemma collapse_singleSpaced: "singleSpaced (replaceAll m_whitespace x)"
proof (induction x rule: length_induct)
  case (1 x)
  show ?case
  proof (cases x)
    case Nil
    then show ?thesis by simp
  next
    case (Cons c cs)
    show ?thesis
    proof (cases "isSpace c")
      case False
      have "singleSpaced (replaceAll m_whitespace cs)" using 1 Cons by simp
      then show ?thesis using False Cons by (simp add: collapse_keep)
    next
      case True
      let ?d = "dropWhile isSpace cs"
      have "length ?d < length x" using Cons by (simp add: less_Suc_eq_le length_dropWhile_le)
      then have ih: "singleSpaced (replaceAll m_whitespace ?d)" using 1 by simp
      have hd: "case replaceAll m_whitespace ?d of [] \<Rightarrow> True | e # _ \<Rightarrow> \<not> isSpace e"
      proof (cases ?d)
        case Nil
        show ?thesis unfolding Nil by simp
      next
        case d: (Cons e r)
        then have "\<not> isSpace e" using hd_dropWhile [of isSpace cs] by simp
        then show ?thesis using d by (simp add: collapse_keep)
      qed
      have "replaceAll m_whitespace x = space # replaceAll m_whitespace ?d"
        unfolding Cons by (rule collapse_space [OF True])
      then show ?thesis using ih hd by (simp add: isSpace_space)
    qed
  qed
qed

lemma collapse_fixed: "singleSpaced s \<Longrightarrow> replaceAll m_whitespace s = s"
proof (induction s)
  case Nil
  then show ?case by simp
next
  case (Cons c r)
  then have ih: "replaceAll m_whitespace r = r" by simp
  show ?case
  proof (cases "isSpace c")
    case False
    then show ?thesis using ih by (simp add: collapse_keep)
  next
    case True
    with Cons.prems have c: "c = space" and r: "case r of [] \<Rightarrow> True | d # _ \<Rightarrow> \<not> isSpace d"
      by simp_all
    from r have "dropWhile isSpace r = r" by (cases r) simp_all
    then show ?thesis using True c ih by (simp add: collapse_space)
  qed
qed

lemma singleSpaced_drop: "singleSpaced s \<Longrightarrow> singleSpaced (drop n s)"
proof (induction s arbitrary: n)
  case Nil
  then show ?case by simp
next
  case (Cons c r)
  then show ?case by (cases n) simp_all
qed

lemma singleSpaced_take: "singleSpaced s \<Longrightarrow> singleSpaced (take n s)"
proof (induction s arbitrary: n)
  case Nil
  then show ?case by simp
next
  case (Cons c r)
  show ?case
  proof (cases n)
    case 0
    then show ?thesis by simp
  next
    case (Suc k)
    have "singleSpaced (take k r)" using Cons by simp
    moreover have "case take k r of [] \<Rightarrow> True | d # _ \<Rightarrow> \<not> isSpace d"
      if "case r of [] \<Rightarrow> True | d # _ \<Rightarrow> \<not> isSpace d"
      using that by (cases r; cases k) simp_all
    ultimately show ?thesis using Cons.prems Suc by simp
  qed
qed

lemma dropEnd_take: "rev (dropWhile P (rev s)) = take (length (dropWhile P (rev s))) s"
proof -
  have "rev s = takeWhile P (rev s) @ dropWhile P (rev s)" by simp
  then have "s = rev (dropWhile P (rev s)) @ rev (takeWhile P (rev s))"
    by (metis rev_append rev_rev_ident)
  then have "take (length (rev (dropWhile P (rev s)))) s = rev (dropWhile P (rev s))"
    by (metis append_eq_conv_conj)
  then show ?thesis by simp
qed

lemma trim_singleSpaced: "singleSpaced s \<Longrightarrow> singleSpaced (trim s)"
proof -
  assume s: "singleSpaced s"
  have "singleSpaced (dropWhile isSpace s)"
    using singleSpaced_drop [OF s] by (subst dropWhile_eq_drop)
  then show ?thesis
    unfolding trim_def by (subst dropEnd_take) (rule singleSpaced_take)
qed

lemma trim_noEdgeSpace: "noEdgeSpace (trim s)"
proof (cases "dropWhile isSpace s")
  case Nil
  show ?thesis unfolding trim_def Nil by (simp add: noEdgeSpace_def)
next
  case (Cons d r)
  have d: "\<not> isSpace d" using hd_dropWhile [of isSpace s] unfolding Cons by simp
  let ?t = "d # r"
  let ?u = "dropWhile isSpace (rev ?t)"
  have rt: "rev ?t = rev r @ [d]" by simp
  have u: "?u = dropWhile isSpace (rev r) @ [d]"
    unfolding rt using d by (simp add: dropWhile_append)
  then have ne: "?u \<noteq> []" by simp
  have "\<not> isSpace (hd ?u)" using hd_dropWhile [OF ne] .
  moreover have "last ?u = d" using u by simp
  ultimately have "\<not> isSpace (last (rev ?u))" "\<not> isSpace (hd (rev ?u))"
    using ne d by (simp_all add: last_rev hd_rev)
  moreover have "trim s = rev ?u" unfolding trim_def Cons ..
  ultimately show ?thesis using ne by (simp add: noEdgeSpace_def)
qed

lemma trim_fixed: "noEdgeSpace s \<Longrightarrow> trim s = s"
proof (cases s)
  case Nil
  then show ?thesis by (simp add: trim_def)
next
  case (Cons c r)
  assume "noEdgeSpace s"
  with Cons have h: "\<not> isSpace c" and l: "\<not> isSpace (last s)" by (simp_all add: noEdgeSpace_def)
  have 1: "dropWhile isSpace s = s" using h Cons by simp
  have "rev s \<noteq> []" "hd (rev s) = last s" using Cons by (simp_all add: hd_rev)
  then have 2: "dropWhile isSpace (rev s) = rev s" using l by (simp add: dropWhile_eq_self_iff)
  show ?thesis using 1 2 by (simp add: trim_def)
qed

subsection \<open>The fraction polish keeps the white space tidy\<close>

lemma token_not_space: "isToken c \<Longrightarrow> \<not> isSpace c"
  by (auto simp: isToken_def isAlnum_def isSpace_def)

lemma polishFrac_Nil: "replaceAll m_polishFrac s = [] \<longleftrightarrow> s = []"
proof (cases s)
  case Nil
  then show ?thesis by simp
next
  case (Cons c cs)
  show ?thesis
  proof (cases "m_polishFrac (c # cs)")
    case None
    then show ?thesis using Cons by simp
  next
    case (Some p)
    obtain rep rest where p: "p = (rep, rest)" by (cases p)
    from Some p have "rep \<noteq> []" by (auto simp: m_polishFrac_Some)
    then show ?thesis using polishFrac_Some_step Some p Cons by simp
  qed
qed

lemma polishFrac_hd_space:
  "replaceAll m_polishFrac s = e # y \<Longrightarrow> isSpace e \<Longrightarrow> \<exists>r. s = e # r"
  using polishFrac_copy_char [of s e y] token_not_space [of e] by blast

lemma singleSpaced_nonspace_append:
  "(\<And>c. c \<in> set u \<Longrightarrow> \<not> isSpace c) \<Longrightarrow> singleSpaced (u @ y) = singleSpaced y"
  by (induction u) simp_all

lemma polishFrac_match_nonspace:
  assumes "m_polishFrac s = Some (rep, rest)"
  shows "\<exists>u. s = u @ rest \<and> (\<forall>c\<in>set u. \<not> isSpace c) \<and> (\<forall>c\<in>set rep. \<not> isSpace c) \<and>
             rep \<noteq> [] \<and> \<not> isSpace (last rep)"
proof -
  from assms obtain a b where ab: "a \<noteq> []" "b \<noteq> []" "list_all isToken a" "list_all isToken b"
    "s = lparen # a @ rparen # slash # lparen # b @ rparen # rest" "rep = a @ slash # b"
    by (auto simp: m_polishFrac_Some)
  have ns: "\<not> isSpace lparen" "\<not> isSpace rparen" "\<not> isSpace slash"
    by (simp_all add: isSpace_def lparen_def rparen_def slash_def)
  have ta: "\<forall>c\<in>set a. \<not> isSpace c" and tb: "\<forall>c\<in>set b. \<not> isSpace c"
    using ab(3,4) token_not_space by (auto simp: list_all_iff)
  let ?u = "lparen # a @ rparen # slash # lparen # b @ [rparen]"
  have "s = ?u @ rest" using ab(5) by simp
  moreover have "\<forall>c\<in>set ?u. \<not> isSpace c" using ta tb ns by auto
  moreover have "\<forall>c\<in>set rep. \<not> isSpace c" using ta tb ns ab(6) by auto
  moreover have "rep \<noteq> []" "\<not> isSpace (last rep)" using ab(2,6) tb by simp_all
  ultimately show ?thesis by blast
qed

lemma polishFrac_singleSpaced:
  "singleSpaced s \<Longrightarrow> singleSpaced (replaceAll m_polishFrac s)"
proof (induction s rule: length_induct)
  case (1 s)
  show ?case
  proof (cases s)
    case Nil
    then show ?thesis by simp
  next
    case (Cons c cs)
    show ?thesis
    proof (cases "m_polishFrac (c # cs)")
      case None
      have cs: "singleSpaced cs" using "1.prems" Cons by simp
      then have ih: "singleSpaced (replaceAll m_polishFrac cs)" using 1 Cons by simp
      have hd: "case replaceAll m_polishFrac cs of [] \<Rightarrow> True | e # _ \<Rightarrow> \<not> isSpace e"
        if "isSpace c"
      proof (cases "replaceAll m_polishFrac cs")
        case Nil
        then show ?thesis by simp
      next
        case r: (Cons e y)
        have "\<not> isSpace e"
        proof
          assume "isSpace e"
          with r polishFrac_hd_space obtain r' where "cs = e # r'" by blast
          with \<open>isSpace c\<close> \<open>isSpace e\<close> "1.prems" Cons show False by simp
        qed
        then show ?thesis using r by simp
      qed
      show ?thesis using None Cons ih hd "1.prems" by simp
    next
      case (Some p)
      obtain rep rest where p: "p = (rep, rest)" by (cases p)
      from polishFrac_match_nonspace [of s rep rest] Some p Cons
      obtain u where u: "s = u @ rest" "\<forall>c\<in>set u. \<not> isSpace c" "\<forall>c\<in>set rep. \<not> isSpace c"
        by auto
      have "singleSpaced rest"
        using "1.prems" u singleSpaced_nonspace_append [of u rest] by simp
      moreover have "length rest < length s" using m_polishFrac_length Some p Cons by blast
      ultimately have "singleSpaced (replaceAll m_polishFrac rest)" using 1 by simp
      then have "singleSpaced (rep @ replaceAll m_polishFrac rest)"
        using u(3) singleSpaced_nonspace_append [of rep] by simp
      then show ?thesis using polishFrac_Some_step Some p Cons by simp
    qed
  qed
qed

lemma polishFrac_last:
  "s \<noteq> [] \<Longrightarrow> isSpace (last (replaceAll m_polishFrac s)) \<Longrightarrow> isSpace (last s)"
proof (induction s rule: length_induct)
  case (1 s)
  from "1.prems"(1) obtain c cs where Cons: "s = c # cs" by (cases s) auto
  show ?case
  proof (cases "m_polishFrac (c # cs)")
    case None
    then have r: "replaceAll m_polishFrac s = c # replaceAll m_polishFrac cs" using Cons by simp
    show ?thesis
    proof (cases "cs = []")
      case True
      then show ?thesis using r "1.prems"(2) Cons by simp
    next
      case False
      then have "replaceAll m_polishFrac cs \<noteq> []" by (simp add: polishFrac_Nil)
      then have "isSpace (last (replaceAll m_polishFrac cs))" using r "1.prems"(2) by simp
      then have "isSpace (last cs)" using 1 False Cons by simp
      then show ?thesis using False Cons by simp
    qed
  next
    case (Some p)
    obtain rep rest where p: "p = (rep, rest)" by (cases p)
    from polishFrac_match_nonspace [of s rep rest] Some p Cons
    obtain u where u: "s = u @ rest" "rep \<noteq> []" "\<not> isSpace (last rep)" by auto
    have r: "replaceAll m_polishFrac s = rep @ replaceAll m_polishFrac rest"
      using polishFrac_Some_step Some p Cons by simp
    have len: "length rest < length s" using m_polishFrac_length Some p Cons by blast
    show ?thesis
    proof (cases "rest = []")
      case True
      then show ?thesis using r u "1.prems"(2) by simp
    next
      case False
      then have "replaceAll m_polishFrac rest \<noteq> []" by (simp add: polishFrac_Nil)
      then have "isSpace (last (replaceAll m_polishFrac rest))" using r "1.prems"(2) by simp
      then have "isSpace (last rest)" using 1 len False by simp
      then show ?thesis using u(1) False by simp
    qed
  qed
qed

lemma polishFrac_noEdgeSpace:
  assumes "noEdgeSpace s"
  shows "noEdgeSpace (replaceAll m_polishFrac s)"
proof (cases "replaceAll m_polishFrac s")
  case Nil
  then show ?thesis by (simp add: noEdgeSpace_def)
next
  case (Cons e y)
  then have ne: "s \<noteq> []" using polishFrac_Nil [of s] by auto
  with assms have s: "\<not> isSpace (hd s)" "\<not> isSpace (last s)" by (simp_all add: noEdgeSpace_def)
  have "\<not> isSpace e"
  proof
    assume "isSpace e"
    with Cons polishFrac_hd_space obtain r where "s = e # r" by blast
    with s(1) \<open>isSpace e\<close> show False by simp
  qed
  moreover have "\<not> isSpace (last (replaceAll m_polishFrac s))"
    using polishFrac_last [OF ne] s(2) by blast
  ultimately show ?thesis using Cons by (simp add: noEdgeSpace_def)
qed

subsection \<open>What a replacement can add to a string\<close>

lemma replaceAll_set:
  assumes "\<And>t rep rest. m t = Some (rep, rest) \<Longrightarrow> set t \<subseteq> A \<Longrightarrow> set rep \<subseteq> A \<and> set rest \<subseteq> A"
    and "set s \<subseteq> A"
  shows "set (replaceAll m s) \<subseteq> A"
  using assms(2)
proof (induction s rule: length_induct)
  case (1 s)
  show ?case
  proof (cases s)
    case Nil
    then show ?thesis by simp
  next
    case (Cons c cs)
    have cs: "set (replaceAll m cs) \<subseteq> A" using 1 Cons by simp
    show ?thesis
    proof (cases "m (c # cs)")
      case None
      then show ?thesis using cs "1.prems" Cons by simp
    next
      case (Some p)
      obtain rep rest where p: "p = (rep, rest)" by (cases p)
      have r: "set rep \<subseteq> A" "set rest \<subseteq> A"
        using assms(1) [of "c # cs" rep rest] Some p "1.prems" Cons by simp_all
      show ?thesis
      proof (cases "length rest \<le> length cs")
        case True
        then have "set (replaceAll m rest) \<subseteq> A" using 1 r Cons by simp
        then show ?thesis using Some p True r Cons by simp
      next
        case False
        then show ?thesis using Some p cs "1.prems" Cons by simp
      qed
    qed
  qed
qed

lemma m_whitespace_set:
  "m_whitespace t = Some (rep, rest) \<Longrightarrow> set rep \<subseteq> {space} \<and> set rest \<subseteq> set t"
  by (cases t) (auto split: if_splits dest: set_dropWhileD)

lemma collapse_set: "set (replaceAll m_whitespace s) \<subseteq> insert space (set s)"
proof (rule replaceAll_set)
  show "set s \<subseteq> insert space (set s)" by auto
next
  fix t rep rest
  assume "m_whitespace t = Some (rep, rest)" "set t \<subseteq> insert space (set s)"
  then show "set rep \<subseteq> insert space (set s) \<and> set rest \<subseteq> insert space (set s)"
    using m_whitespace_set [of t rep rest] by auto
qed

lemma trim_set: "set (trim s) \<subseteq> set s"
  unfolding trim_def by (auto dest!: set_dropWhileD)

lemma polishFrac_set: "set (replaceAll m_polishFrac s) \<subseteq> insert slash (set s)"
proof (rule replaceAll_set)
  show "set s \<subseteq> insert slash (set s)" by auto
next
  fix t rep rest
  assume "m_polishFrac t = Some (rep, rest)" "set t \<subseteq> insert slash (set s)"
  then show "set rep \<subseteq> insert slash (set s) \<and> set rest \<subseteq> insert slash (set s)"
    by (auto simp: m_polishFrac_Some)
qed

lemma polishSup_set: "set (replaceAll m_polishSup s) \<subseteq> set s"
proof (rule replaceAll_set)
  show "set s \<subseteq> set s" by simp
next
  fix t rep rest
  assume a: "m_polishSup t = Some (rep, rest)" "set t \<subseteq> set s"
  then show "set rep \<subseteq> set s \<and> set rest \<subseteq> set s"
    by (cases t rule: m_polishSup.cases) (auto split: if_splits)
qed

lemma removeBraces_set:
  "set (replaceAll m_anyBrace s) \<subseteq> {c. notBrace c}"
  by (induction s) auto

lemma polishSup_no_caret:
  "caret \<notin> set (replaceAll m_polishSup s) \<Longrightarrow> replaceAll m_polishSup s = s"
proof (induction s rule: length_induct)
  case (1 s)
  show ?case
  proof (cases s)
    case Nil
    then show ?thesis by simp
  next
    case (Cons c cs)
    show ?thesis
    proof (cases "m_polishSup (c # cs)")
      case None
      then show ?thesis using 1 Cons by simp
    next
      case (Some p)
      obtain rep rest where p: "p = (rep, rest)" by (cases p)
      have "caret \<in> set rep"
        using Some p by (cases "c # cs" rule: m_polishSup.cases) (auto split: if_splits)
      moreover have "replaceAll m_polishSup s = rep @ replaceAll m_polishSup rest"
        using Some p Cons m_polishSup_length [of "c # cs" rep rest] by simp
      ultimately show ?thesis using "1.prems" by simp
    qed
  qed
qed

subsection \<open>Steps that leave a string alone\<close>

lemma code_unit_facts:
  "space \<noteq> backslash" "space \<noteq> underscore" "space \<noteq> caret" "space \<noteq> lbrace" "space \<noteq> rbrace"
  "slash \<noteq> backslash" "slash \<noteq> underscore" "slash \<noteq> caret" "slash \<noteq> lbrace" "slash \<noteq> rbrace"
  by (simp_all add: space_def slash_def backslash_def underscore_def caret_def lbrace_def rbrace_def)

lemma replaceAll_id_set:
  "(\<And>t. set t \<subseteq> set s \<Longrightarrow> m t = None) \<Longrightarrow> replaceAll m s = s"
proof (induction s)
  case Nil
  then show ?case by simp
next
  case (Cons c cs)
  have "m (c # cs) = None" using Cons.prems by simp
  moreover have "replaceAll m cs = cs"
  proof (rule Cons.IH)
    fix t assume "set t \<subseteq> set cs"
    then show "m t = None" using Cons.prems [of t] by auto
  qed
  ultimately show ?case by simp
qed

lemma m_spacing_hd: "c \<noteq> backslash \<Longrightarrow> m_spacing (c # r) = None"
  by (cases r) simp_all

lemma m_escapedSpace_hd: "c \<noteq> backslash \<Longrightarrow> m_escapedSpace (c # r) = None"
  by (cases r) simp_all

lemma m_whitespace_hd: "\<not> isSpace c \<Longrightarrow> m_whitespace (c # r) = None"
  by simp

lemma m_remove_hd: "c \<noteq> backslash \<Longrightarrow> m_remove name (c # r) = None"
  by (simp add: m_remove_def stripPrefix_def)

lemma m_subChar_hd: "c \<noteq> underscore \<Longrightarrow> m_subChar (c # r) = None"
  by (cases r) simp_all

lemma m_supChar_hd: "c \<noteq> caret \<Longrightarrow> m_supChar (c # r) = None"
  by (cases r) simp_all

lemma m_anyBrace_hd: "notBrace c \<Longrightarrow> m_anyBrace (c # r) = None"
  by simp

lemma m_polishSup_hd: "c \<noteq> caret \<Longrightarrow> m_polishSup (c # r) = None"
  by (cases "c # r" rule: m_polishSup.cases) simp_all

lemma braced_None: "lbrace \<notin> set s \<Longrightarrow> braced s = None"
  by (cases "braced s") (auto simp: braced_Some)

lemma command_set: "command name s = Some r \<Longrightarrow> set r \<subseteq> set s"
  by (auto simp: command_Some dest: set_dropWhileD)

lemma m_text_None: "lbrace \<notin> set s \<Longrightarrow> m_text s = None"
proof (cases "command ''text'' s")
  case None
  then show ?thesis by (simp add: m_text_def)
next
  case (Some r)
  assume "lbrace \<notin> set s"
  then have "lbrace \<notin> set r" using command_set [OF Some] by auto
  then have "braced r = None" by (rule braced_None)
  then show ?thesis using Some by (simp add: m_text_def)
qed

lemma m_sqrt_None: "lbrace \<notin> set s \<Longrightarrow> m_sqrt s = None"
proof (cases "command ''sqrt'' s")
  case None
  then show ?thesis by (simp add: m_sqrt_def)
next
  case (Some r)
  assume "lbrace \<notin> set s"
  then have "lbrace \<notin> set r" using command_set [OF Some] by auto
  then have "braced r = None" by (rule braced_None)
  then show ?thesis using Some by (simp add: m_sqrt_def)
qed

lemma m_frac_None: "lbrace \<notin> set s \<Longrightarrow> m_frac s = None"
proof (cases "command ''frac'' s")
  case None
  then show ?thesis by (simp add: m_frac_def)
next
  case (Some r)
  assume "lbrace \<notin> set s"
  then have "lbrace \<notin> set r" using command_set [OF Some] by auto
  then have "braced r = None" by (rule braced_None)
  then show ?thesis using Some by (simp add: m_frac_def)
qed

lemma m_root_None: "lbrace \<notin> set s \<Longrightarrow> m_root s = None"
proof (cases "command ''sqrt'' s")
  case None
  then show ?thesis by (simp add: m_root_def)
next
  case (Some r)
  assume nb: "lbrace \<notin> set s"
  show ?thesis
  proof (cases "expect lbracket r")
    case None
    then show ?thesis using Some by (simp add: m_root_def)
  next
    case r1: (Some r1)
    then have "set r1 \<subseteq> set s" using command_set [OF Some] by (auto simp: expect_Some)
    then have "lbrace \<notin> set (dropWhile notBrace r1)" using nb by (auto dest: set_dropWhileD)
    then have "braced (dropWhile notBrace r1) = None" by (rule braced_None)
    then show ?thesis using Some r1 by (simp add: m_root_def Let_def)
  qed
qed

lemma m_sub_None: "lbrace \<notin> set s \<Longrightarrow> m_sub s = None"
  by (cases s) (auto simp: m_sub_def braced_None split: option.splits if_splits)

lemma m_sup_None: "lbrace \<notin> set s \<Longrightarrow> m_sup s = None"
  by (cases s) (auto simp: m_sup_def braced_None split: option.splits if_splits)

lemma structuralPass_id: "lbrace \<notin> set s \<Longrightarrow> structuralPass s = s"
proof -
  assume nb: "lbrace \<notin> set s"
  have r: "replaceAll m s = s" if "\<And>t. lbrace \<notin> set t \<Longrightarrow> m t = None" for m
    using that nb by (intro replaceAll_id_set) auto
  show ?thesis
    unfolding structuralPass_def Let_def
    by (simp add: r m_text_None m_sqrt_None m_root_None m_frac_None m_sub_None m_sup_None)
qed

lemma resolveLoop_fixed: "structuralPass s = s \<Longrightarrow> resolveLoop s 0 = (s, 1)"
  by (subst resolveLoop.simps) (simp add: Let_def)

lemma splitFrom_noprefix:
  "sep \<noteq> [] \<Longrightarrow> hd sep \<notin> set cs \<Longrightarrow> splitFrom sep cur cs = [cur @ cs]"
proof (induction cs arbitrary: cur)
  case Nil
  then show ?case by simp
next
  case (Cons c cs)
  have "take (length sep) (c # cs) \<noteq> sep"
  proof
    assume "take (length sep) (c # cs) = sep"
    with Cons.prems(1) have "hd sep = c" by (cases sep) auto
    with Cons.prems(2) show False by simp
  qed
  then show ?case using Cons by simp
qed

lemma splitFrom_head_only:
  "sep \<noteq> [] \<Longrightarrow> take (length sep) (c # cs) \<noteq> sep \<Longrightarrow> hd sep \<notin> set cs \<Longrightarrow>
   splitFrom sep cur (c # cs) = [cur @ c # cs]"
  by (simp add: splitFrom_noprefix)

lemma keys_set: "set keys = fst ` set symbolMap"
  unfolding keys_def by simp

lemma keys_backslash: "k \<in> set keys \<Longrightarrow> k \<noteq> [] \<and> hd k = backslash"
  unfolding keys_set by (auto simp: symbolMap_def)

lemma foldl_id: "(\<And>k. k \<in> set ks \<Longrightarrow> f s k = s) \<Longrightarrow> foldl f s ks = s"
  by (induction ks) simp_all

lemma applySymbolMap_plain: "backslash \<notin> set t \<Longrightarrow> applySymbolMap t = t"
  unfolding applySymbolMap_def
  by (rule foldl_id) (use keys_backslash in \<open>auto simp: split_def splitFrom_noprefix\<close>)

lemma initialCleanup_plain:
  assumes "backslash \<notin> set t"
  shows "initialCleanup t = replaceAll m_whitespace t"
proof -
  have 1: "replaceAll m_spacing t = t" "replaceAll m_escapedSpace t = t"
    using assms by (auto intro!: replaceAll_id m_spacing_hd m_escapedSpace_hd)
  have "backslash \<notin> set (replaceAll m_whitespace t)"
    using collapse_set [of t] assms code_unit_facts by auto
  then have 2: "replaceAll (m_remove name) (replaceAll m_whitespace t) = replaceAll m_whitespace t"
    for name by (auto intro!: replaceAll_id m_remove_hd)
  show ?thesis unfolding initialCleanup_def Let_def by (simp add: 1 2)
qed

lemma singleCharScripts_plain:
  "underscore \<notin> set t \<Longrightarrow> caret \<notin> set t \<Longrightarrow> singleCharScripts t = t"
proof -
  assume a: "underscore \<notin> set t" "caret \<notin> set t"
  have 1: "replaceAll m_subChar t = t"
    using a(1) by (auto intro!: replaceAll_id m_subChar_hd)
  have 2: "replaceAll m_supChar t = t"
    using a(2) by (auto intro!: replaceAll_id m_supChar_hd)
  show ?thesis unfolding singleCharScripts_def by (simp add: 1 2)
qed

lemma removeBraces_plain:
  "lbrace \<notin> set t \<Longrightarrow> rbrace \<notin> set t \<Longrightarrow> replaceAll m_anyBrace t = t"
  by (rule replaceAll_id, rule m_anyBrace_hd) (auto simp: notBrace_def lbrace_def rbrace_def)

lemma polishSup_plain: "caret \<notin> set t \<Longrightarrow> replaceAll m_polishSup t = t"
  by (auto intro!: replaceAll_id m_polishSup_hd)

lemma cleanLatex_plain:
  assumes "backslash \<notin> set t" "underscore \<notin> set t" "caret \<notin> set t"
    "lbrace \<notin> set t" "rbrace \<notin> set t"
  shows "cleanLatex t = replaceAll m_polishFrac (trim (replaceAll m_whitespace t))"
proof -
  let ?c = "replaceAll m_whitespace t"
  have c: "backslash \<notin> set ?c" "underscore \<notin> set ?c" "caret \<notin> set ?c"
    "lbrace \<notin> set ?c" "rbrace \<notin> set ?c"
    using collapse_set [of t] assms code_unit_facts by auto
  have 1: "initialCleanup t = ?c" by (rule initialCleanup_plain [OF assms(1)])
  have 2: "applySymbolMap ?c = ?c" by (rule applySymbolMap_plain [OF c(1)])
  have 3: "fst (resolveLoop ?c 0) = ?c"
    using resolveLoop_fixed [OF structuralPass_id [OF c(4)]] by simp
  have 4: "singleCharScripts ?c = ?c" by (rule singleCharScripts_plain [OF c(2,3)])
  have 5: "finalCleanup ?c = trim ?c"
    unfolding finalCleanup_def
    by (simp add: removeBraces_plain [OF c(4,5)] collapse_fixed [OF collapse_singleSpaced])
  have "caret \<notin> set (replaceAll m_polishFrac (trim ?c))"
    using polishFrac_set [of "trim ?c"] trim_set [of ?c] c(3) code_unit_facts by auto
  then have 6: "cosmeticPolish (trim ?c) = replaceAll m_polishFrac (trim ?c)"
    unfolding cosmeticPolish_def by (rule polishSup_plain)
  show ?thesis unfolding cleanLatex_def Let_def by (simp add: 1 2 3 4 5 6)
qed

lemma command_hd: "c \<noteq> backslash \<Longrightarrow> command name (c # r) = None"
  by (simp add: command_def stripPrefix_def)

lemma m_text_hd: "c \<noteq> backslash \<Longrightarrow> m_text (c # r) = None"
  by (simp add: m_text_def command_hd)

lemma m_sqrt_hd: "c \<noteq> backslash \<Longrightarrow> m_sqrt (c # r) = None"
  by (simp add: m_sqrt_def command_hd)

lemma m_root_hd: "c \<noteq> backslash \<Longrightarrow> m_root (c # r) = None"
  by (simp add: m_root_def command_hd)

lemma m_frac_hd: "c \<noteq> backslash \<Longrightarrow> m_frac (c # r) = None"
  by (simp add: m_frac_def command_hd)

lemma m_sub_hd: "c \<noteq> underscore \<Longrightarrow> m_sub (c # r) = None"
  by (simp add: m_sub_def)

lemma m_sup_hd: "c \<noteq> caret \<Longrightarrow> m_sup (c # r) = None"
  by (simp add: m_sup_def)

lemma structuralPass_plain:
  assumes "backslash \<notin> set t" "underscore \<notin> set t" "caret \<notin> set t"
  shows "structuralPass t = t"
proof -
  have 1: "replaceAll m_text t = t" "replaceAll m_sqrt t = t" "replaceAll m_root t = t"
    "replaceAll m_frac t = t"
    using assms(1) by (auto intro!: replaceAll_id m_text_hd m_sqrt_hd m_root_hd m_frac_hd)
  have 2: "replaceAll m_sub t = t"
    using assms(2) by (auto intro!: replaceAll_id m_sub_hd)
  have 3: "replaceAll m_sup t = t"
    using assms(3) by (auto intro!: replaceAll_id m_sup_hd)
  show ?thesis unfolding structuralPass_def Let_def by (simp add: 1 2 3)
qed

lemma removeBraces_subset: "set (replaceAll m_anyBrace s) \<subseteq> set s"
  by (induction s) auto

lemma cleanLatex_no_markup:
  assumes "backslash \<notin> set t" "underscore \<notin> set t" "caret \<notin> set t"
  shows "set (cleanLatex t) \<subseteq> insert slash (insert space (set t))"
proof -
  let ?c = "replaceAll m_whitespace t"
  have sub: "set ?c \<subseteq> insert space (set t)" by (rule collapse_set)
  then have c: "backslash \<notin> set ?c" "underscore \<notin> set ?c" "caret \<notin> set ?c"
    using assms code_unit_facts by auto
  have 1: "initialCleanup t = ?c" by (rule initialCleanup_plain [OF assms(1)])
  have 2: "applySymbolMap ?c = ?c" by (rule applySymbolMap_plain [OF c(1)])
  have 3: "fst (resolveLoop ?c 0) = ?c"
    using resolveLoop_fixed [OF structuralPass_plain [OF c]] by simp
  have 4: "singleCharScripts ?c = ?c" by (rule singleCharScripts_plain [OF c(2,3)])
  have eq: "cleanLatex t = cosmeticPolish (finalCleanup ?c)"
    unfolding cleanLatex_def Let_def by (simp add: 1 2 3 4)
  let ?b = "replaceAll m_anyBrace ?c"
  have "set (finalCleanup ?c) \<subseteq> insert space (set ?b)"
    unfolding finalCleanup_def using trim_set [of "replaceAll m_whitespace ?b"] collapse_set [of ?b]
    by blast
  then have f: "set (finalCleanup ?c) \<subseteq> insert space (set t)"
    using removeBraces_subset [of ?c] sub by blast
  have "set (cosmeticPolish (finalCleanup ?c)) \<subseteq> insert slash (set (finalCleanup ?c))"
    unfolding cosmeticPolish_def
    using polishSup_set [of "replaceAll m_polishFrac (finalCleanup ?c)"]
      polishFrac_set [of "finalCleanup ?c"] by blast
  then show ?thesis using f eq by auto
qed

subsection \<open>The output of the normaliser\<close>

lemma cleanLatex_shape:
  "\<exists>u. singleSpaced u \<and> noEdgeSpace u \<and> lbrace \<notin> set u \<and> rbrace \<notin> set u \<and>
       cleanLatex s = replaceAll m_polishSup (replaceAll m_polishFrac u)"
proof -
  define y where "y = singleCharScripts (fst (resolveLoop (applySymbolMap (initialCleanup s)) 0))"
  define v where "v = replaceAll m_anyBrace y"
  define u where "u = trim (replaceAll m_whitespace v)"
  have "set v \<subseteq> {c. notBrace c}" unfolding v_def by (rule removeBraces_set)
  then have "lbrace \<notin> set v" "rbrace \<notin> set v" by (auto simp: notBrace_def lbrace_def rbrace_def)
  then have "lbrace \<notin> set u" "rbrace \<notin> set u"
    using trim_set [of "replaceAll m_whitespace v"] collapse_set [of v] code_unit_facts
    unfolding u_def by auto
  moreover have "singleSpaced u" unfolding u_def
    by (intro trim_singleSpaced collapse_singleSpaced)
  moreover have "noEdgeSpace u" unfolding u_def by (rule trim_noEdgeSpace)
  moreover have "cleanLatex s = replaceAll m_polishSup (replaceAll m_polishFrac u)"
    unfolding cleanLatex_def Let_def cosmeticPolish_def finalCleanup_def u_def v_def y_def ..
  ultimately show ?thesis by blast
qed


subsection \<open>The worked examples\<close>

text \<open>
  The embedding reproduces the four renderings that the specification lists:
  \<^verbatim>\<open>\frac{a}{b}\<close> becomes \<^verbatim>\<open>a/b\<close>, \<^verbatim>\<open>x^{2}\<close> becomes \<open>x\<close> with U+00B2,
  \<^verbatim>\<open>n_1\<close> becomes \<open>n\<close> with U+2081, and \<^verbatim>\<open>\sqrt{x}\<close> becomes U+221A followed by
  \<^verbatim>\<open>(x)\<close>.  Unbalanced braces are dropped by the final cleanup.
\<close>

lemma cleanLatex_examples:
  "cleanLatex (backslash # ascii ''frac{a}{b}'') = ascii ''a/b''"
  "cleanLatex (ascii ''x^{2}'') = [120, 0xB2]"
  "cleanLatex (ascii ''n_1'') = [110, 0x2081]"
  "cleanLatex (backslash # ascii ''sqrt{x}'') = 0x221A # ascii ''(x)''"
  "cleanLatex (ascii ''a{b'') = ascii ''ab''"
  by code_simp+

subsection \<open>Idempotence\<close>

text \<open>
  C5, as stated, makes a second run a no-op for every input without commands.  The
  input \<^verbatim>\<open>x^{{2}}\<close> holds no backslash; the doubled braces stop the superscript
  pattern, the final cleanup strips them, and the first run yields \<^verbatim>\<open>x^2\<close>, which
  a second run turns into \<open>x\<close> with the superscript two, U+00B2.
\<close>

theorem cleanLatex_not_idempotent_counterexample:
  "backslash \<notin> set (ascii ''x^{{2}}'') \<and>
   cleanLatex (ascii ''x^{{2}}'') = ascii ''x^2'' \<and>
   cleanLatex (cleanLatex (ascii ''x^{{2}}'')) = [120, 0xB2] \<and>
   cleanLatex (cleanLatex (ascii ''x^{{2}}'')) \<noteq> cleanLatex (ascii ''x^{{2}}'')"
  by code_simp


text \<open>
  C5, amended.  Whenever the normalised string contains no backslash, underscore or
  caret, normalising it again changes nothing; this is the case in particular for every
  input that contains no backslash, underscore or caret.
\<close>

theorem cleanLatex_fixed_point:
  "(backslash \<notin> set (cleanLatex s) \<and> underscore \<notin> set (cleanLatex s) \<and>
    caret \<notin> set (cleanLatex s) \<longrightarrow> cleanLatex (cleanLatex s) = cleanLatex s) \<and>
   (backslash \<notin> set s \<and> underscore \<notin> set s \<and> caret \<notin> set s \<longrightarrow>
      cleanLatex (cleanLatex s) = cleanLatex s)"
proof -
  have fixed: "cleanLatex (cleanLatex s) = cleanLatex s"
    if clean: "backslash \<notin> set (cleanLatex s)" "underscore \<notin> set (cleanLatex s)"
      "caret \<notin> set (cleanLatex s)" for s
  proof -
    let ?t = "cleanLatex s"
    obtain u where u: "singleSpaced u" "noEdgeSpace u" "lbrace \<notin> set u" "rbrace \<notin> set u"
      "?t = replaceAll m_polishSup (replaceAll m_polishFrac u)"
      using cleanLatex_shape by blast
    have t: "?t = replaceAll m_polishFrac u"
      using polishSup_no_caret [of "replaceAll m_polishFrac u"] clean(3) u(5) by simp
    have br: "lbrace \<notin> set ?t" "rbrace \<notin> set ?t"
      using polishFrac_set [of u] u(3,4) t code_unit_facts by auto
    have tidy: "singleSpaced ?t" "noEdgeSpace ?t"
      using polishFrac_singleSpaced [OF u(1)] polishFrac_noEdgeSpace [OF u(2)] t by simp_all
    have "cleanLatex ?t = replaceAll m_polishFrac (trim (replaceAll m_whitespace ?t))"
      by (rule cleanLatex_plain [OF clean br])
    also have "\<dots> = replaceAll m_polishFrac ?t"
      by (simp add: collapse_fixed [OF tidy(1)] trim_fixed [OF tidy(2)])
    also have "\<dots> = ?t" by (subst (1 2) t) (rule polishFrac_idem)
    finally show ?thesis .
  qed
  have plain: "cleanLatex (cleanLatex s) = cleanLatex s"
    if p: "backslash \<notin> set s" "underscore \<notin> set s" "caret \<notin> set s"
  proof -
    have "backslash \<notin> set (cleanLatex s)" "underscore \<notin> set (cleanLatex s)"
      "caret \<notin> set (cleanLatex s)"
      using cleanLatex_no_markup [OF p] p code_unit_facts by auto
    then show ?thesis by (rule fixed)
  qed
  show ?thesis using fixed plain by blast
qed

theorem cleanLatex_fixed_point_witness:
  "backslash \<notin> set (cleanLatex (backslash # ascii ''frac{a}{b}'')) \<and>
   underscore \<notin> set (cleanLatex (backslash # ascii ''frac{a}{b}'')) \<and>
   caret \<notin> set (cleanLatex (backslash # ascii ''frac{a}{b}'')) \<and>
   cleanLatex (backslash # ascii ''frac{a}{b}'') = ascii ''a/b'' \<and>
   cleanLatex (cleanLatex (backslash # ascii ''frac{a}{b}'')) =
     cleanLatex (backslash # ascii ''frac{a}{b}'') \<and>
   backslash \<notin> set (ascii ''  ({n})/(2) }  = k '') \<and>
   underscore \<notin> set (ascii ''  ({n})/(2) }  = k '') \<and>
   caret \<notin> set (ascii ''  ({n})/(2) }  = k '') \<and>
   cleanLatex (ascii ''  ({n})/(2) }  = k '') = ascii ''n/2 = k'' \<and>
   cleanLatex (cleanLatex (ascii ''  ({n})/(2) }  = k '')) = cleanLatex (ascii ''  ({n})/(2) }  = k '')"
proof -
  let ?s1 = "backslash # ascii ''frac{a}{b}''" and ?s2 = "ascii ''  ({n})/(2) }  = k ''"
  have v1: "cleanLatex ?s1 = ascii ''a/b''" by code_simp
  have h1: "backslash \<notin> set (cleanLatex ?s1) \<and> underscore \<notin> set (cleanLatex ?s1) \<and>
            caret \<notin> set (cleanLatex ?s1)"
    unfolding v1 by code_simp
  have v2: "cleanLatex ?s2 = ascii ''n/2 = k''" by code_simp
  have h2: "backslash \<notin> set ?s2 \<and> underscore \<notin> set ?s2 \<and> caret \<notin> set ?s2"
    by code_simp
  have r1: "cleanLatex (cleanLatex ?s1) = cleanLatex ?s1"
    using cleanLatex_fixed_point [of ?s1] h1 by blast
  have r2: "cleanLatex (cleanLatex ?s2) = cleanLatex ?s2"
    using cleanLatex_fixed_point [of ?s2] h2 by blast
  show ?thesis using v1 h1 v2 h2 r1 r2 by blast
qed

subsection \<open>Termination and pass-through\<close>

lemma letters_absent:
  assumes "\<forall>c\<in>set w. isLetter c"
  shows "backslash \<notin> set w" "underscore \<notin> set w" "caret \<notin> set w" "lbrace \<notin> set w"
    "rbrace \<notin> set w" "lparen \<notin> set w" "\<forall>c\<in>set w. \<not> isSpace c"
    "44 \<notin> set w" "59 \<notin> set w" "33 \<notin> set w" "58 \<notin> set w" "space \<notin> set w"
  using assms
  by (auto simp: isLetter_def backslash_def underscore_def caret_def lbrace_def rbrace_def
      lparen_def isSpace_def space_def)

lemma backslash_facts:
  "backslash \<noteq> underscore" "backslash \<noteq> caret" "backslash \<noteq> lbrace" "backslash \<noteq> rbrace"
  "backslash \<noteq> lparen" "\<not> isSpace backslash"
  by (simp_all add: backslash_def underscore_def caret_def lbrace_def rbrace_def lparen_def
      isSpace_def)

lemma cleanLatex_untouched:
  assumes "untouchedCommand s"
  shows "cleanLatex s = s"
proof -
  from assms obtain w where s: "s = backslash # w" and w: "\<forall>c\<in>set w. isLetter c"
    and k: "\<forall>k\<in>set keys \<union> set removedNames. take (length k) s \<noteq> k"
    by (cases s) (auto simp: list_all_iff)
  have absent: "backslash \<notin> set w" "underscore \<notin> set s" "caret \<notin> set s" "lbrace \<notin> set s"
    "rbrace \<notin> set s" "lparen \<notin> set s" "\<forall>c\<in>set s. \<not> isSpace c"
    using letters_absent [OF w] s backslash_facts by auto
  have 1: "replaceAll m_spacing s = s"
  proof -
    have "m_spacing (backslash # w) = None"
      using letters_absent [OF w] by (cases w) auto
    moreover have "replaceAll m_spacing w = w"
      using absent(1) by (auto intro!: replaceAll_id m_spacing_hd)
    ultimately show ?thesis unfolding s by simp
  qed
  have 2: "replaceAll m_escapedSpace s = s"
  proof -
    have "m_escapedSpace (backslash # w) = None"
      using letters_absent [OF w] by (cases w) auto
    moreover have "replaceAll m_escapedSpace w = w"
      using absent(1) by (auto intro!: replaceAll_id m_escapedSpace_hd)
    ultimately show ?thesis unfolding s by simp
  qed
  have 3: "replaceAll m_whitespace s = s"
    using absent(7) by (auto intro!: replaceAll_id m_whitespace_hd)
  have 4: "replaceAll (m_remove name) s = s"
    if "backslash # ascii name \<in> set removedNames" for name
  proof -
    have "take (length (backslash # ascii name)) s \<noteq> backslash # ascii name"
      using k that by blast
    then have "m_remove name (backslash # w) = None"
      unfolding s by (simp add: m_remove_def stripPrefix_def)
    moreover have "replaceAll (m_remove name) w = w"
      using absent(1) by (auto intro!: replaceAll_id m_remove_hd)
    ultimately show ?thesis unfolding s by simp
  qed
  have names: "backslash # ascii ''left'' \<in> set removedNames"
    "backslash # ascii ''right'' \<in> set removedNames"
    "backslash # ascii ''mathrm'' \<in> set removedNames"
    "backslash # ascii ''mathbf'' \<in> set removedNames"
    by (simp_all add: removedNames_def)
  have init: "initialCleanup s = s"
    unfolding initialCleanup_def Let_def by (simp add: 1 2 3 4 names)
  have sym: "applySymbolMap s = s"
    unfolding applySymbolMap_def
  proof (rule foldl_id)
    fix key assume key: "key \<in> set keys"
    then have "take (length key) (backslash # w) \<noteq> key" using k s by blast
    moreover have "key \<noteq> []" "hd key \<notin> set w" using keys_backslash [OF key] absent(1) by auto
    ultimately have "splitFrom key [] (backslash # w) = [[] @ backslash # w]"
      by (intro splitFrom_head_only)
    then show "join (symbolOf key) (split key s) = s" by (simp add: split_def s)
  qed
  have loop: "fst (resolveLoop s 0) = s"
    using resolveLoop_fixed [OF structuralPass_id [OF absent(4)]] by simp
  have scripts: "singleCharScripts s = s"
    by (rule singleCharScripts_plain [OF absent(2,3)])
  have "last s \<in> set s" unfolding s by (rule last_in_set) simp
  then have "noEdgeSpace s" using absent(7) s by (simp add: noEdgeSpace_def)
  then have final: "finalCleanup s = s"
    unfolding finalCleanup_def by (simp add: removeBraces_plain [OF absent(4,5)] 3 trim_fixed)
  have "replaceAll m_polishFrac s = s"
    using absent(6) by (auto intro!: replaceAll_id m_polishFrac_hd)
  then have polish: "cosmeticPolish s = s"
    unfolding cosmeticPolish_def by (simp add: polishSup_plain [OF absent(3)])
  show ?thesis
    unfolding cleanLatex_def Let_def by (simp add: init sym loop scripts final polish)
qed


text \<open>
  The resolution loop, from any string, makes between 1 and 10 passes; it stops after
  fewer than 10 only when the last pass left the string unchanged, and no earlier pass
  did.
\<close>

lemma resolveLoop_bounded:
  "\<exists>n. 1 \<le> n \<and> n \<le> 10 \<and>
        resolveLoop x 0 = ((structuralPass ^^ n) x, n) \<and>
        (n < 10 \<longrightarrow> (structuralPass ^^ n) x = (structuralPass ^^ (n - 1)) x) \<and>
        (\<forall>k. 0 < k \<and> k < n \<longrightarrow> (structuralPass ^^ k) x \<noteq> (structuralPass ^^ (k - 1)) x)"
proof -
  have "(0::nat) < maxLoops" by (simp add: maxLoops_def)
  from resolveLoop_spec [OF this, of x]
  show ?thesis by (simp add: maxLoops_def Suc_le_eq)
qed

text \<open>
  Two runs of the loop: one that stops at its fixed point after two passes, and one on
  eleven nested subscripts, which is cut off by the ceiling.
\<close>

lemma resolveLoop_examples:
  "resolveLoop (ascii ''x^{2}'') 0 = ([120, 0xB2], 2)"
  "snd (resolveLoop (concat (replicate 11 (ascii ''_{'')) @ ascii ''b'' @ replicate 11 rbrace) 0) = 10"
  by code_simp+

text \<open>
  A command that stands alone, and of which no table key and no removed name is a
  prefix, comes back unchanged (lemma \<open>cleanLatex_untouched\<close>); \<^verbatim>\<open>\foo\<close> is one.
\<close>

lemma cleanLatex_foo:
  "untouchedCommand (backslash # ascii ''foo'')"
  "cleanLatex (backslash # ascii ''foo'') = backslash # ascii ''foo''"
  by code_simp+

text \<open>
  C9 says that the normaliser is total, that its loop makes at most 10 passes, and that
  an unknown command passes through with its backslash kept.  The first two hold (the
  embedding is a total function; lemma \<open>resolveLoop_bounded\<close>).  The third does not: the
  source applies the symbol table by substring replacement, longest key first
  (\<^verbatim>\<open>Sort by length desc to avoid prefix matching issues\<close>, its comment says), which
  protects a key from a shorter key but not an unknown command from a key that is its
  prefix.  The command \<^verbatim>\<open>\leq\<close> is neither a key of the table nor a removed name; the key
  \<^verbatim>\<open>\le\<close> is a prefix of it, and the normaliser returns the sign U+2264 followed by
  \<open>q\<close>, with no backslash left, alone and inside \<^verbatim>\<open>a \leq b\<close>.
\<close>

theorem cleanLatex_leq_mangled:
  "backslash # ascii ''leq'' \<notin> set keys \<and>
   backslash # ascii ''leq'' \<notin> set removedNames \<and>
   backslash # ascii ''le'' \<in> set keys \<and>
   cleanLatex (backslash # ascii ''leq'') = [0x2264, 113] \<and>
   backslash \<notin> set (cleanLatex (backslash # ascii ''leq'')) \<and>
   cleanLatex (ascii ''a '' @ backslash # ascii ''leq b'') = [97, 32, 0x2264, 113, 32, 98]"
  by code_simp

end
